theory Spec2Isabelle
  imports Complex_Main "HOL-Library.Multiset"
begin

section \<open>Numbers of the host program\<close>

text \<open>
  Counts (\<open>nElements\<close>, \<open>nPadded\<close>, \<open>numThreads\<close>, \<open>itemsPerThread\<close>) are JavaScript
  numbers that hold non-negative integers; they are modelled as \<open>nat\<close>.

  \<open>nextPowerOfTwo(x) = Math.pow(2, Math.ceil(Math.log2(x)))\<close>. \<open>Math.log2(0)\<close> is
  \<open>-Infinity\<close>, \<open>Math.ceil\<close> keeps it, and \<open>Math.pow(2, -Infinity)\<close> is \<open>0\<close>; for a
  count \<open>x \<ge> 1\<close> the logarithm is a non-negative real. The logarithm is taken as the
  exact real one (lemma \<open>ceil_log2_is_ceiling_log\<close> ties the executable \<open>ceil_log2\<close> to
  \<open>\<lceil>log 2 x\<rceil>\<close>); the rounding of a double is not modelled.
\<close>

datatype exponent = NegInfinity | Finite nat

fun ceil_log2 :: "nat \<Rightarrow> nat" where
  "ceil_log2 x = (if x \<le> 1 then 0 else Suc (ceil_log2 ((x - 1) div 2 + 1)))"

declare ceil_log2.simps [simp del]

definition Math_ceil_log2 :: "nat \<Rightarrow> exponent" where
  "Math_ceil_log2 x = (if x = 0 then NegInfinity else Finite (ceil_log2 x))"

definition Math_pow2 :: "exponent \<Rightarrow> nat" where
  "Math_pow2 e = (case e of NegInfinity \<Rightarrow> 0 | Finite k \<Rightarrow> 2 ^ k)"

definition nextPowerOfTwo :: "nat \<Rightarrow> nat" where
  "nextPowerOfTwo x = Math_pow2 (Math_ceil_log2 x)"

text \<open>\<open>Math.ceil(nElements / numThreads)\<close>, with \<open>numThreads = 1024\<close> in the constructor.\<close>

definition ceil_div :: "nat \<Rightarrow> nat \<Rightarrow> nat" where
  "ceil_div n t = (n + t - 1) div t"

section \<open>Device data and the two shaders of the depth sorter\<close>

text \<open>
  An \<open>f32\<close> is modelled as a real number (no rounding, no NaN), a \<open>u32\<close> as a natural
  number: the index buffer of \<open>24 * nElements\<close> bytes is bound as a storage buffer, whose
  size is below \<open>2 ^ 32\<close>, so no \<open>u32\<close> counter or index of the shaders wraps.
  A \<open>mat4x4<f32>\<close> is its four columns, as in WGSL.
\<close>

type_synonym vec3 = "real \<times> real \<times> real"
type_synonym vec4 = "real \<times> real \<times> real \<times> real"
type_synonym mat4x4 = "vec4 \<times> vec4 \<times> vec4 \<times> vec4"

definition vec4_of :: "vec3 \<Rightarrow> real \<Rightarrow> vec4" where
  "vec4_of p w = (case p of (x, y, z) \<Rightarrow> (x, y, z, w))"

definition vec4_scale :: "real \<Rightarrow> vec4 \<Rightarrow> vec4" where
  "vec4_scale s v = (case v of (x, y, z, w) \<Rightarrow> (s * x, s * y, s * z, s * w))"

definition vec4_add :: "vec4 \<Rightarrow> vec4 \<Rightarrow> vec4" where
  "vec4_add a b =
     (case a of (x, y, z, w) \<Rightarrow> case b of (x', y', z', w') \<Rightarrow> (x + x', y + y', z + z', w + w'))"

definition vec4_z :: "vec4 \<Rightarrow> real" where
  "vec4_z v = (case v of (x, y, z, w) \<Rightarrow> z)"

text \<open>WGSL's matrix times column vector: the linear combination of the columns.\<close>

definition mat4x4_mul :: "mat4x4 \<Rightarrow> vec4 \<Rightarrow> vec4" where
  "mat4x4_mul m v =
     (case m of (c0, c1, c2, c3) \<Rightarrow> case v of (x, y, z, w) \<Rightarrow>
        vec4_add (vec4_add (vec4_scale x c0) (vec4_scale y c1))
                 (vec4_add (vec4_scale z c2) (vec4_scale w c3)))"

text \<open>
  A read of a storage array. The shaders read \<open>vertices.values[i]\<close> and \<open>indices[i]\<close> only
  for \<open>i < numQuadsUnpadded\<close>; a read past the end of the binding is given the zero
  value here (one of the results WGSL allows).
\<close>

definition load :: "'a list \<Rightarrow> nat \<Rightarrow> 'a \<Rightarrow> 'a" where
  "load buf i zero = (if i < length buf then buf ! i else zero)"

text \<open>
  A store \<open>buf[i] = v\<close> of a shader. WGSL lets an implementation skip a store past the end
  of the binding or perform it somewhere inside the binding. \<open>store\<close> is the first
  behaviour: the buffer keeps its length and its contents. The second one is
  \<open>store_clamped\<close> below.
\<close>

fun store :: "'a list \<Rightarrow> nat \<times> 'a \<Rightarrow> 'a list" where
  "store buf (i, v) = (if i < length buf then buf[i := v] else buf)"

text \<open>
  The sentinel of \<open>computeDepthShader\<close>: \<open>depths[i] = 1000000; // pad with +inf\<close>.
\<close>

definition sentinel :: real where
  "sentinel = 1000000"

text \<open>
  \<open>computeDepthShader(itemsPerThread, numQuadsUnpadded)\<close>: the loop of one invocation,
  \<open>for (var i = global_id.x * itemsPerThread; i < (global_id.x + 1) * itemsPerThread; i++)\<close>.
  The shader only stores to \<open>depths\<close> and never reads it, so an invocation is the list of
  its stores \<open>(index, value)\<close>, in program order.
\<close>

definition depth_of :: "vec3 list \<Rightarrow> mat4x4 \<Rightarrow> nat \<Rightarrow> real" where
  "depth_of vertices projMatrix i =
     (let pos = load vertices i (0, 0, 0);
          projPos = mat4x4_mul projMatrix (vec4_of pos 1)
      in vec4_z projPos)"

function computeDepth_loop :: "nat \<Rightarrow> nat \<Rightarrow> nat \<Rightarrow> vec3 list \<Rightarrow> mat4x4 \<Rightarrow> (nat \<times> real) list" where
  "computeDepth_loop i bound numQuadsUnpadded vertices projMatrix =
     (if i < bound then
        (if numQuadsUnpadded \<le> i then (i, sentinel)
         else (i, depth_of vertices projMatrix i))
        # computeDepth_loop (i + 1) bound numQuadsUnpadded vertices projMatrix
      else [])"
  by pat_completeness auto
termination
  by (relation "measure (\<lambda>(i, bound, n, vs, m). bound - i)") auto

declare computeDepth_loop.simps [simp del]

definition computeDepth_main :: "nat \<Rightarrow> nat \<Rightarrow> vec3 list \<Rightarrow> mat4x4 \<Rightarrow> nat \<Rightarrow> (nat \<times> real) list" where
  "computeDepth_main itemsPerThread numQuadsUnpadded vertices projMatrix global_id =
     computeDepth_loop (global_id * itemsPerThread) ((global_id + 1) * itemsPerThread)
       numQuadsUnpadded vertices projMatrix"

text \<open>
  \<open>copyToIndexBufferShader(itemsPerThread, numQuadsUnpadded)\<close>: the outer loop leaves at
  the first \<open>i >= numQuadsUnpadded\<close> (\<open>break\<close>); the inner loop writes the six vertex
  indices of quad \<open>i\<close>.
\<close>

definition copy_quad :: "nat list \<Rightarrow> nat \<Rightarrow> (nat \<times> nat) list" where
  "copy_quad indices i =
     (let index = load indices i 0
      in map (\<lambda>vertex. (i * 6 + vertex, index * 6 + vertex)) [0..<6])"

function copyToIndexBuffer_loop :: "nat \<Rightarrow> nat \<Rightarrow> nat \<Rightarrow> nat list \<Rightarrow> (nat \<times> nat) list" where
  "copyToIndexBuffer_loop i bound numQuadsUnpadded indices =
     (if i < bound then
        (if numQuadsUnpadded \<le> i then []
         else copy_quad indices i @ copyToIndexBuffer_loop (i + 1) bound numQuadsUnpadded indices)
      else [])"
  by pat_completeness auto
termination
  by (relation "measure (\<lambda>(i, bound, n, ix). bound - i)") auto

declare copyToIndexBuffer_loop.simps [simp del]

definition copyToIndexBuffer_main :: "nat \<Rightarrow> nat \<Rightarrow> nat list \<Rightarrow> nat \<Rightarrow> (nat \<times> nat) list" where
  "copyToIndexBuffer_main itemsPerThread numQuadsUnpadded indices global_id =
     copyToIndexBuffer_loop (global_id * itemsPerThread) ((global_id + 1) * itemsPerThread)
       numQuadsUnpadded indices"

text \<open>
  \<open>dispatchWorkgroups(n)\<close> of a shader with \<open>@workgroup_size(1)\<close> runs the invocations
  \<open>global_id.x = 0, ..., n - 1\<close>. Their stores are applied one invocation after the other;
  in both shaders the stores of a dispatch go to the indices \<open>0, 1, 2, ...\<close> once each
  (lemmas \<open>computeDepth_stores\<close> and \<open>copy_stores\<close>), so the order between invocations
  does not matter as long as a store past the end of the binding is skipped.
\<close>

definition dispatch_stores :: "nat \<Rightarrow> (nat \<Rightarrow> (nat \<times> 'a) list) \<Rightarrow> (nat \<times> 'a) list" where
  "dispatch_stores n main = concat (map main [0..<n])"

definition dispatchWorkgroups :: "nat \<Rightarrow> (nat \<Rightarrow> (nat \<times> 'a) list) \<Rightarrow> 'a list \<Rightarrow> 'a list" where
  "dispatchWorkgroups n main buf = foldl store buf (dispatch_stores n main)"

text \<open>
  The other behaviour WGSL allows for a store past the end of the binding: the store is
  performed inside the binding. Here the index is clamped to the last element, which is
  what an implementation does that bounds every index by \<open>arrayLength - 1\<close>. A store
  below the length is the same in both. With such a device a store of one invocation can
  land on the slot of another, and the workgroups of a dispatch run in no order that
  WGSL fixes: \<open>dispatch_clamped\<close> takes the order of the invocations as a list of their
  \<open>global_id.x\<close>.
\<close>

fun store_clamped :: "'a list \<Rightarrow> nat \<times> 'a \<Rightarrow> 'a list" where
  "store_clamped buf (i, v) = buf[min i (length buf - 1) := v]"

definition dispatch_clamped :: "nat list \<Rightarrow> (nat \<Rightarrow> (nat \<times> 'a) list) \<Rightarrow> 'a list \<Rightarrow> 'a list" where
  "dispatch_clamped order main buf = foldl store_clamped buf (concat (map main order))"

section \<open>The sort engine\<close>

text \<open>
  Modelled from the spec: the Parallel Sort Engine, class \<open>BitonicSorter\<close> of
  \<open>./bitonic\<close>, which is imported by \<open>depth_sorter.ts\<close> and is not among the sources.
  What follows is the spec's section 4.2: a bitonic sorting network on (key, index)
  pairs, \<open>log2 P\<close> major stages, stage \<open>s\<close> made of \<open>s + 1\<close> compare-exchange passes at
  the strides \<open>2 ^ s, ..., 2, 1\<close>; a pass compares and conditionally swaps the pairs at
  distance \<open>stride\<close> inside every sub-block of \<open>2 * stride\<close> elements, and the direction
  (ascending, descending) alternates from one block of \<open>2 ^ (s + 1)\<close> elements to the
  next. A compare-exchange moves a pair as a unit. Equal keys are left in place (the spec
  leaves the tie-break open). The engine requires a power-of-two length; a sub-block that
  is not complete is left as it is.
\<close>

type_synonym 'e comparator = "bool \<Rightarrow> 'e \<Rightarrow> 'e \<Rightarrow> 'e \<times> 'e"

definition compare_exchange :: "(real \<times> nat) comparator" where
  "compare_exchange ascending a b =
     (if (if ascending then fst b < fst a else fst a < fst b) then (b, a) else (a, b))"

text \<open>The same compare-exchange on bare keys, used to reason about the key sequence.\<close>

definition key_exchange :: "('k::linorder) comparator" where
  "key_exchange ascending a b =
     (if (if ascending then b < a else a < b) then (b, a) else (a, b))"

fun blocks :: "nat \<Rightarrow> 'a list \<Rightarrow> 'a list list" where
  "blocks n xs = (if n = 0 \<or> xs = [] then [] else take n xs # blocks n (drop n xs))"

declare blocks.simps [simp del]

definition half_clean :: "'e comparator \<Rightarrow> bool \<Rightarrow> nat \<Rightarrow> 'e list \<Rightarrow> 'e list" where
  "half_clean cx ascending j blk =
     (if length blk = 2 * j then
        (let ps = map2 (cx ascending) (take j blk) (drop j blk)
         in map fst ps @ map snd ps)
      else blk)"

definition sub_blocks :: "'e comparator \<Rightarrow> nat \<Rightarrow> bool \<Rightarrow> 'e list \<Rightarrow> 'e list" where
  "sub_blocks cx j ascending blk = concat (map (half_clean cx ascending j) (blocks (2 * j) blk))"

fun alternating :: "(bool \<Rightarrow> 'a list \<Rightarrow> 'a list) \<Rightarrow> bool \<Rightarrow> 'a list list \<Rightarrow> 'a list list" where
  "alternating f ascending [] = []"
| "alternating f ascending (blk # bs) = f ascending blk # alternating f (\<not> ascending) bs"

definition compare_exchange_pass :: "'e comparator \<Rightarrow> nat \<Rightarrow> nat \<Rightarrow> 'e list \<Rightarrow> 'e list" where
  "compare_exchange_pass cx k j xs = concat (alternating (sub_blocks cx j) True (blocks k xs))"

definition major_stage :: "'e comparator \<Rightarrow> nat \<Rightarrow> 'e list \<Rightarrow> 'e list" where
  "major_stage cx s xs =
     foldl (\<lambda>ys t. compare_exchange_pass cx (2 ^ (s + 1)) (2 ^ t) ys) xs (rev [0..<s + 1])"

definition bitonic_network :: "'e comparator \<Rightarrow> 'e list \<Rightarrow> 'e list" where
  "bitonic_network cx xs = foldl (\<lambda>ys s. major_stage cx s ys) xs [0..<ceil_log2 (length xs)]"

definition argsort :: "real list \<Rightarrow> nat list" where
  "argsort keys = map snd (bitonic_network compare_exchange (zip keys [0..<length keys]))"

text \<open>
  The passes of a major stage as they act on one of its blocks: the bitonic merge of the
  block, at the strides \<open>2 ^ (n - 1), ..., 2, 1\<close> (lemma \<open>major_stage_blocks\<close>).
\<close>

definition merge_block :: "'e comparator \<Rightarrow> bool \<Rightarrow> nat \<Rightarrow> 'e list \<Rightarrow> 'e list" where
  "merge_block cx ascending n blk =
     foldl (\<lambda>ys t. sub_blocks cx (2 ^ t) ascending ys) blk (rev [0..<n])"

text \<open>
  A bitonic sequence of truth values: the \<open>True\<close>s, or the \<open>False\<close>s, are the positions
  of one interval.
\<close>

definition bitonic01 :: "bool list \<Rightarrow> bool" where
  "bitonic01 xs \<longleftrightarrow>
     (\<exists>i j. (\<forall>p<length xs. xs ! p = (i \<le> p \<and> p < j)) \<or>
            (\<forall>p<length xs. xs ! p = (\<not> (i \<le> p \<and> p < j))))"

text \<open>A block sorted in its direction, and blocks sorted in alternating directions.\<close>

definition sorted_dir :: "bool \<Rightarrow> ('k::linorder) list \<Rightarrow> bool" where
  "sorted_dir ascending xs = (if ascending then sorted xs else sorted (rev xs))"

fun alt_sorted :: "bool \<Rightarrow> ('k::linorder) list list \<Rightarrow> bool" where
  "alt_sorted ascending [] = True"
| "alt_sorted ascending (blk # bs) = (sorted_dir ascending blk \<and> alt_sorted (\<not> ascending) bs)"

section \<open>The device and the depth sorter\<close>

text \<open>
  The device memory is a store from buffer handles to contents; \<open>createBuffer\<close> takes the
  next free handle. A new buffer is zero-filled (WebGPU), but for the positions buffer,
  which is mapped at creation and filled from the gaussians. The identity of a
  \<open>GPUBuffer\<close> object is its handle.
\<close>

datatype gpu_data =
  Vec3Array "vec3 list" | F32Array "real list" | U32Array "nat list" | Uniform mat4x4

type_synonym handle = nat

record GpuContext =
  buffers :: "handle \<Rightarrow> gpu_data option"
  next_handle :: handle

definition createBuffer :: "GpuContext \<Rightarrow> gpu_data \<Rightarrow> GpuContext \<times> handle" where
  "createBuffer ctx contents =
     (ctx\<lparr>buffers := (buffers ctx)(next_handle ctx \<mapsto> contents),
          next_handle := Suc (next_handle ctx)\<rparr>,
      next_handle ctx)"

definition writeBuffer :: "GpuContext \<Rightarrow> handle \<Rightarrow> gpu_data \<Rightarrow> GpuContext" where
  "writeBuffer ctx h d = ctx\<lparr>buffers := (buffers ctx)(h \<mapsto> d)\<rparr>"

definition vec3_data :: "GpuContext \<Rightarrow> handle \<Rightarrow> vec3 list" where
  "vec3_data ctx h = (case buffers ctx h of Some (Vec3Array xs) \<Rightarrow> xs | _ \<Rightarrow> [])"

definition f32_data :: "GpuContext \<Rightarrow> handle \<Rightarrow> real list" where
  "f32_data ctx h = (case buffers ctx h of Some (F32Array xs) \<Rightarrow> xs | _ \<Rightarrow> [])"

definition u32_data :: "GpuContext \<Rightarrow> handle \<Rightarrow> nat list" where
  "u32_data ctx h = (case buffers ctx h of Some (U32Array xs) \<Rightarrow> xs | _ \<Rightarrow> [])"

definition zero_mat4x4 :: mat4x4 where
  "zero_mat4x4 = ((0, 0, 0, 0), (0, 0, 0, 0), (0, 0, 0, 0), (0, 0, 0, 0))"

definition uniform_data :: "GpuContext \<Rightarrow> handle \<Rightarrow> mat4x4" where
  "uniform_data ctx h = (case buffers ctx h of Some (Uniform m) \<Rightarrow> m | _ \<Rightarrow> zero_mat4x4)"

text \<open>
  The outcome of a piece of submitted work is the device's, not the program's. A fault
  (out of memory, device lost) is modelled as the work not being executed; \<open>queue.submit\<close>
  returns nothing, so the host code sees neither outcome.
\<close>

datatype outcome = Completed | DeviceFault

definition submit :: "outcome \<Rightarrow> (GpuContext \<Rightarrow> GpuContext) \<Rightarrow> GpuContext \<Rightarrow> GpuContext" where
  "submit oc work ctx = (case oc of Completed \<Rightarrow> work ctx | DeviceFault \<Rightarrow> ctx)"

record outcomes =
  depth_outcome :: outcome
  argsort_outcome :: outcome
  copy_outcome :: outcome

definition no_fault :: outcomes where
  "no_fault = \<lparr>depth_outcome = Completed, argsort_outcome = Completed, copy_outcome = Completed\<rparr>"

text \<open>
  Modelled from the spec: the object interface of \<open>BitonicSorter\<close> (\<open>./bitonic\<close>, not among
  the sources). The engine owns one permutation buffer, created with the sorter and never
  reallocated; \<open>argsort\<close> reads the keys of the buffer it is given and overwrites the
  permutation buffer.
\<close>

record BitonicSorter =
  sorter_nElements :: nat
  indicesBuffer :: handle

definition BitonicSorter_new :: "GpuContext \<Rightarrow> nat \<Rightarrow> GpuContext \<times> BitonicSorter" where
  "BitonicSorter_new ctx n =
     (case createBuffer ctx (U32Array (replicate n 0)) of
        (ctx', h) \<Rightarrow> (ctx', \<lparr>sorter_nElements = n, indicesBuffer = h\<rparr>))"

definition BitonicSorter_argsort :: "BitonicSorter \<Rightarrow> handle \<Rightarrow> GpuContext \<Rightarrow> GpuContext" where
  "BitonicSorter_argsort srt values ctx =
     writeBuffer ctx (indicesBuffer srt) (U32Array (argsort (f32_data ctx values)))"

text \<open>
  \<open>PackedGaussians\<close> (\<open>./ply\<close>) as far as the constructor reads it: the count and the
  positions.
\<close>

record PackedGaussians =
  numGaussians :: nat
  packed_positions :: "vec3 list"

text \<open>
  Class \<open>DepthSorter\<close>. A compute pipeline is the pair of constants spliced into its
  shader text, a bind group the handles it binds. The field \<open>context\<close> is named \<open>gpu\<close>.
\<close>

record DepthSorter =
  gpu :: GpuContext
  nElements :: nat
  nPadded :: nat
  numThreads :: nat
  positionsBuffer :: handle
  projMatrixBuffer :: handle
  depthBuffer :: handle
  indexBuffer :: handle
  indicesReadoutBuffer :: handle
  computeDepthPipeline :: "nat \<times> nat"
  computeDepthBindGroup :: "handle \<times> handle \<times> handle"
  copyToIndexBufferPipeline :: "nat \<times> nat"
  copyToIndexBufferBindGroup :: "handle \<times> handle"
  sorter :: BitonicSorter

definition DepthSorter_new :: "GpuContext \<Rightarrow> PackedGaussians \<Rightarrow> DepthSorter" where
  "DepthSorter_new ctx0 gaussians =
     (let n = numGaussians gaussians;
          p = nextPowerOfTwo n;
          threads = 1024;
          (ctx1, positionsB) = createBuffer ctx0 (Vec3Array (packed_positions gaussians));
          (ctx2, depthB) = createBuffer ctx1 (F32Array (replicate p 0));
          (ctx3, readoutB) = createBuffer ctx2 (F32Array (replicate p 0));
          (ctx4, projMatrixB) = createBuffer ctx3 (Uniform zero_mat4x4);
          itemsPerThread = ceil_div n threads;
          (ctx5, srt) = BitonicSorter_new ctx4 p;
          (ctx6, indexB) = createBuffer ctx5 (U32Array (replicate (n * 6) 0))
      in \<lparr>gpu = ctx6, nElements = n, nPadded = p, numThreads = threads,
          positionsBuffer = positionsB, projMatrixBuffer = projMatrixB, depthBuffer = depthB,
          indexBuffer = indexB, indicesReadoutBuffer = readoutB,
          computeDepthPipeline = (itemsPerThread, n),
          computeDepthBindGroup = (positionsB, depthB, projMatrixB),
          copyToIndexBufferPipeline = (itemsPerThread, n),
          copyToIndexBufferBindGroup = (indicesBuffer srt, indexB),
          sorter = srt\<rparr>)"

text \<open>The two compute passes of \<open>sort\<close>, as the work they submit.\<close>

definition computeDepth_pass :: "nat \<times> nat \<Rightarrow> handle \<times> handle \<times> handle \<Rightarrow> nat \<Rightarrow> GpuContext \<Rightarrow> GpuContext" where
  "computeDepth_pass pipeline bindGroup workgroups ctx =
     (case pipeline of (itemsPerThread, numQuadsUnpadded) \<Rightarrow>
      case bindGroup of (vertices, depths, projMatrix) \<Rightarrow>
        writeBuffer ctx depths
          (F32Array (dispatchWorkgroups workgroups
             (computeDepth_main itemsPerThread numQuadsUnpadded
                (vec3_data ctx vertices) (uniform_data ctx projMatrix))
             (f32_data ctx depths))))"

definition copyToIndexBuffer_pass :: "nat \<times> nat \<Rightarrow> handle \<times> handle \<Rightarrow> nat \<Rightarrow> GpuContext \<Rightarrow> GpuContext" where
  "copyToIndexBuffer_pass pipeline bindGroup workgroups ctx =
     (case pipeline of (itemsPerThread, numQuadsUnpadded) \<Rightarrow>
      case bindGroup of (indices, indexB) \<Rightarrow>
        writeBuffer ctx indexB
          (U32Array (dispatchWorkgroups workgroups
             (copyToIndexBuffer_main itemsPerThread numQuadsUnpadded (u32_data ctx indices))
             (u32_data ctx indexB))))"

text \<open>
  \<open>DepthSorter.sort(projMatrix)\<close>, named \<open>DepthSorter_sort\<close> here: write the matrix, dispatch the depth shader, call the
  engine's \<open>argsort\<close> on the depth buffer (its result is discarded: the permutation buffer
  is already bound), dispatch the copy shader, return \<open>this.indexBuffer\<close>. The outcomes
  of the three pieces of device work are the environment's. The matrix is taken as the
  shader reads it from the uniform buffer: \<open>projMatrixLayout.pack\<close> (\<open>./packing\<close>), which
  lays the rows of \<open>number[][]\<close> out for the device, is not among the sources.
\<close>

definition DepthSorter_sort :: "outcomes \<Rightarrow> mat4x4 \<Rightarrow> DepthSorter \<Rightarrow> DepthSorter \<times> handle" where
  "DepthSorter_sort oc projMatrix this =
     (let ctx1 = writeBuffer (gpu this) (projMatrixBuffer this) (Uniform projMatrix);
          ctx2 = submit (depth_outcome oc)
                   (computeDepth_pass (computeDepthPipeline this) (computeDepthBindGroup this)
                      (numThreads this)) ctx1;
          ctx3 = submit (argsort_outcome oc)
                   (BitonicSorter_argsort (sorter this) (depthBuffer this)) ctx2;
          ctx4 = submit (copy_outcome oc)
                   (copyToIndexBuffer_pass (copyToIndexBufferPipeline this)
                      (copyToIndexBufferBindGroup this) (numThreads this)) ctx3
      in (this\<lparr>gpu := ctx4\<rparr>, indexBuffer this))"

text \<open>
  The same two passes and the same \<open>sort\<close> on a device that clamps the index of a store
  and runs the \<open>numThreads = 1024\<close> workgroups of both dispatches in the order \<open>order\<close>.
  All device work completes.
\<close>

definition computeDepth_pass_clamped ::
  "nat list \<Rightarrow> nat \<times> nat \<Rightarrow> handle \<times> handle \<times> handle \<Rightarrow> GpuContext \<Rightarrow> GpuContext" where
  "computeDepth_pass_clamped order pipeline bindGroup ctx =
     (case pipeline of (itemsPerThread, numQuadsUnpadded) \<Rightarrow>
      case bindGroup of (vertices, depths, projMatrix) \<Rightarrow>
        writeBuffer ctx depths
          (F32Array (dispatch_clamped order
             (computeDepth_main itemsPerThread numQuadsUnpadded
                (vec3_data ctx vertices) (uniform_data ctx projMatrix))
             (f32_data ctx depths))))"

definition copyToIndexBuffer_pass_clamped ::
  "nat list \<Rightarrow> nat \<times> nat \<Rightarrow> handle \<times> handle \<Rightarrow> GpuContext \<Rightarrow> GpuContext" where
  "copyToIndexBuffer_pass_clamped order pipeline bindGroup ctx =
     (case pipeline of (itemsPerThread, numQuadsUnpadded) \<Rightarrow>
      case bindGroup of (indices, indexB) \<Rightarrow>
        writeBuffer ctx indexB
          (U32Array (dispatch_clamped order
             (copyToIndexBuffer_main itemsPerThread numQuadsUnpadded (u32_data ctx indices))
             (u32_data ctx indexB))))"

definition DepthSorter_sort_clamped :: "nat list \<Rightarrow> mat4x4 \<Rightarrow> DepthSorter \<Rightarrow> DepthSorter \<times> handle" where
  "DepthSorter_sort_clamped order projMatrix this =
     (let ctx1 = writeBuffer (gpu this) (projMatrixBuffer this) (Uniform projMatrix);
          ctx2 = computeDepth_pass_clamped order (computeDepthPipeline this)
                   (computeDepthBindGroup this) ctx1;
          ctx3 = BitonicSorter_argsort (sorter this) (depthBuffer this) ctx2;
          ctx4 = copyToIndexBuffer_pass_clamped order (copyToIndexBufferPipeline this)
                   (copyToIndexBufferBindGroup this) ctx3
      in (this\<lparr>gpu := ctx4\<rparr>, indexBuffer this))"

text \<open>
  The class invariant: what the constructor establishes and every \<open>sort\<close> keeps. The six
  buffers are different objects, the bind groups bind the buffers of the fields, the
  pipelines carry \<open>itemsPerThread = ceil(nElements / numThreads)\<close> and \<open>nElements\<close>, and
  the buffers have the element type and the length they were created with.
\<close>

definition holds_vec3 :: "GpuContext \<Rightarrow> handle \<Rightarrow> bool" where
  "holds_vec3 ctx h = (case buffers ctx h of Some (Vec3Array xs) \<Rightarrow> True | _ \<Rightarrow> False)"

definition holds_f32 :: "GpuContext \<Rightarrow> handle \<Rightarrow> nat \<Rightarrow> bool" where
  "holds_f32 ctx h n = (case buffers ctx h of Some (F32Array xs) \<Rightarrow> length xs = n | _ \<Rightarrow> False)"

definition holds_u32 :: "GpuContext \<Rightarrow> handle \<Rightarrow> nat \<Rightarrow> bool" where
  "holds_u32 ctx h n = (case buffers ctx h of Some (U32Array xs) \<Rightarrow> length xs = n | _ \<Rightarrow> False)"

definition holds_uniform :: "GpuContext \<Rightarrow> handle \<Rightarrow> bool" where
  "holds_uniform ctx h = (case buffers ctx h of Some (Uniform m) \<Rightarrow> True | _ \<Rightarrow> False)"

definition well_formed :: "DepthSorter \<Rightarrow> bool" where
  "well_formed this \<longleftrightarrow>
     distinct [positionsBuffer this, depthBuffer this, indicesReadoutBuffer this,
               projMatrixBuffer this, indicesBuffer (sorter this), indexBuffer this] \<and>
     computeDepthBindGroup this = (positionsBuffer this, depthBuffer this, projMatrixBuffer this) \<and>
     copyToIndexBufferBindGroup this = (indicesBuffer (sorter this), indexBuffer this) \<and>
     computeDepthPipeline this = (ceil_div (nElements this) (numThreads this), nElements this) \<and>
     copyToIndexBufferPipeline this = (ceil_div (nElements this) (numThreads this), nElements this) \<and>
     numThreads this = 1024 \<and>
     nPadded this = nextPowerOfTwo (nElements this) \<and>
     holds_vec3 (gpu this) (positionsBuffer this) \<and>
     holds_uniform (gpu this) (projMatrixBuffer this) \<and>
     holds_f32 (gpu this) (depthBuffer this) (nPadded this) \<and>
     holds_u32 (gpu this) (indicesBuffer (sorter this)) (nPadded this) \<and>
     holds_u32 (gpu this) (indexBuffer this) (nElements this * 6)"

text \<open>A device on which nothing has been allocated yet.\<close>

definition fresh_device :: GpuContext where
  "fresh_device = \<lparr>buffers = Map.empty, next_handle = 0\<rparr>"

text \<open>The spec's scenario: three gaussians whose depths under the identity are 5, 1, 3.\<close>

definition three_gaussians :: PackedGaussians where
  "three_gaussians = \<lparr>numGaussians = 3, packed_positions = [(0, 0, 5), (0, 0, 1), (0, 0, 3)]\<rparr>"

text \<open>Three gaussians of which the first lies beyond the sentinel depth.\<close>

definition far_gaussians :: PackedGaussians where
  "far_gaussians = \<lparr>numGaussians = 3, packed_positions = [(0, 0, 2000000), (0, 0, 1), (0, 0, 3)]\<rparr>"

text \<open>Four gaussians, as many as the padded length: their depths are 5, 1, 3, 2.\<close>

definition four_gaussians :: PackedGaussians where
  "four_gaussians =
     \<lparr>numGaussians = 4, packed_positions = [(0, 0, 5), (0, 0, 1), (0, 0, 3), (0, 0, 2)]\<rparr>"

definition identity_mat4x4 :: mat4x4 where
  "identity_mat4x4 = ((1, 0, 0, 0), (0, 1, 0, 0), (0, 0, 1, 0), (0, 0, 0, 1))"

section \<open>nextPowerOfTwo\<close>

lemma ceil_log2_is_ceiling_log:
  "0 < x \<Longrightarrow> int (ceil_log2 x) = \<lceil>log 2 (real x)\<rceil>"
proof (induction x rule: ceil_log2.induct)
  case (1 x)
  show ?case
  proof (cases "x \<le> 1")
    case True
    with 1(2) have "x = 1" by simp
    then show ?thesis by (simp add: ceil_log2.simps)
  next
    case False
    then have x2: "2 \<le> x" by simp
    have ih: "int (ceil_log2 ((x - 1) div 2 + 1)) = \<lceil>log 2 (real ((x - 1) div 2 + 1))\<rceil>"
      using 1(1) False by simp
    have "int (ceil_log2 x) = int (ceil_log2 ((x - 1) div 2 + 1)) + 1"
      using False by (subst ceil_log2.simps) simp
    also have "\<dots> = \<lceil>log 2 (real x)\<rceil>"
      using ceiling_log2_div2 [OF x2] ih by simp
    finally show ?thesis .
  qed
qed

lemma ceil_log2_upper: "x \<le> 2 ^ ceil_log2 x"
proof (induction x rule: ceil_log2.induct)
  case (1 x)
  show ?case
  proof (cases "x \<le> 1")
    case True
    then show ?thesis by (simp add: ceil_log2.simps)
  next
    case False
    have ih: "(x - 1) div 2 + 1 \<le> 2 ^ ceil_log2 ((x - 1) div 2 + 1)"
      using 1 False by simp
    have "x \<le> 2 * ((x - 1) div 2 + 1)" by simp
    also have "\<dots> \<le> 2 * 2 ^ ceil_log2 ((x - 1) div 2 + 1)"
      using ih by simp
    also have "\<dots> = 2 ^ ceil_log2 x"
      using False by (subst (2) ceil_log2.simps) simp
    finally show ?thesis .
  qed
qed

lemma ceil_log2_least: "x \<le> 2 ^ m \<Longrightarrow> ceil_log2 x \<le> m"
proof (induction x arbitrary: m rule: ceil_log2.induct)
  case (1 x)
  show ?case
  proof (cases "x \<le> 1")
    case True
    then show ?thesis by (simp add: ceil_log2.simps)
  next
    case False
    then obtain m' where m: "m = Suc m'"
      using 1(2) by (cases m) auto
    have "(x - 1) div 2 + 1 \<le> 2 ^ m'"
      using 1(2) False m by simp
    then have "ceil_log2 ((x - 1) div 2 + 1) \<le> m'"
      using 1(1) False by simp
    then show ?thesis
      using False m by (subst ceil_log2.simps) simp
  qed
qed

lemma ceil_log2_power: "ceil_log2 (2 ^ k) = k"
proof (rule antisym)
  show "ceil_log2 (2 ^ k) \<le> k"
    by (rule ceil_log2_least) simp
  have "(2::nat) ^ k \<le> 2 ^ ceil_log2 (2 ^ k)"
    by (rule ceil_log2_upper)
  then show "k \<le> ceil_log2 (2 ^ k)"
    by simp
qed

lemma nextPowerOfTwo_pos: "0 < x \<Longrightarrow> nextPowerOfTwo x = 2 ^ ceil_log2 x"
  by (simp add: nextPowerOfTwo_def Math_ceil_log2_def Math_pow2_def)


section \<open>The stores of a dispatch\<close>

lemma computeDepth_loop_eq:
  "computeDepth_loop i b n vs m =
     map (\<lambda>p. (p, if n \<le> p then sentinel else depth_of vs m p)) [i..<b]"
proof (induction i b n vs m rule: computeDepth_loop.induct)
  case (1 i b n vs m)
  show ?case
  proof (cases "i < b")
    case True
    then show ?thesis
      using 1 by (subst computeDepth_loop.simps) (simp add: upt_conv_Cons)
  next
    case False
    then show ?thesis
      by (subst computeDepth_loop.simps) simp
  qed
qed

lemma concat_chunks:
  "concat (map (\<lambda>g. map f [g * c..<(g + 1) * c]) [0..<n]) = map f [0..<n * c]"
proof (induction n)
  case 0
  show ?case by simp
next
  case (Suc n)
  have "[0..<Suc n * c] = [0..<n * c] @ [n * c..<(n + 1) * c]"
    by (metis Suc_eq_plus1 le_add2 mult_Suc upt_add_eq_append zero_le add.commute)
  then show ?case
    using Suc by simp
qed

lemma computeDepth_stores:
  "dispatch_stores t (computeDepth_main c n vs m) =
     map (\<lambda>p. (p, if n \<le> p then sentinel else depth_of vs m p)) [0..<t * c]"
  unfolding dispatch_stores_def computeDepth_main_def computeDepth_loop_eq
  by (rule concat_chunks)

lemma foldl_store_length: "length (foldl store buf ss) = length buf"
  by (induction ss arbitrary: buf) auto

lemma foldl_store_range:
  "foldl store buf (map (\<lambda>p. (p, f p)) [0..<m]) =
     map (\<lambda>p. if p < m then f p else buf ! p) [0..<length buf]"
proof (induction m)
  case 0
  show ?case by (simp add: map_nth)
next
  case (Suc m)
  let ?g = "\<lambda>k p. if p < k then f p else buf ! p"
  have step: "foldl store buf (map (\<lambda>p. (p, f p)) [0..<Suc m]) =
      store (map (?g m) [0..<length buf]) (m, f m)"
    using Suc by simp
  show ?case
  proof (rule nth_equalityI)
    show "length (foldl store buf (map (\<lambda>p. (p, f p)) [0..<Suc m])) =
        length (map (?g (Suc m)) [0..<length buf])"
      by (simp only: foldl_store_length length_map length_upt diff_zero)
  next
    fix i
    assume "i < length (foldl store buf (map (\<lambda>p. (p, f p)) [0..<Suc m]))"
    then have i: "i < length buf"
      by (simp only: foldl_store_length)
    show "foldl store buf (map (\<lambda>p. (p, f p)) [0..<Suc m]) ! i =
        map (?g (Suc m)) [0..<length buf] ! i"
      unfolding step using i by (auto simp: nth_list_update less_Suc_eq)
  qed
qed

lemma ceil_div_covers: "0 < t \<Longrightarrow> n \<le> t * ceil_div n t"
  using dividend_less_times_div [of t "n + t - 1"] by (simp add: ceil_div_def)


lemma copy_quad_eq:
  "copy_quad ix i = map (\<lambda>p. (p, load ix (p div 6) 0 * 6 + p mod 6)) [i * 6..<i * 6 + 6]"
proof -
  have "[i * 6..<i * 6 + 6] = map (\<lambda>v. i * 6 + v) [0..<6]"
    by (simp add: map_add_upt add.commute)
  then show ?thesis
    by (simp add: copy_quad_def Let_def)
qed

lemma copy_loop_eq:
  "copyToIndexBuffer_loop i b n ix = concat (map (copy_quad ix) [i..<min b n])"
proof (induction i b n ix rule: copyToIndexBuffer_loop.induct)
  case (1 i b n ix)
  show ?case
  proof (cases "i < b \<and> i < n")
    case True
    then show ?thesis
      using 1 by (subst copyToIndexBuffer_loop.simps) (simp add: upt_conv_Cons)
  next
    case False
    then show ?thesis
      by (subst copyToIndexBuffer_loop.simps) auto
  qed
qed

lemma concat_chunks_min:
  "concat (map (\<lambda>g. concat (map f [g * c..<min ((g + 1) * c) n])) [0..<t]) =
     concat (map f [0..<min (t * c) n])"
proof (induction t)
  case 0
  show ?case by simp
next
  case (Suc t)
  have "[0..<min (Suc t * c) n] = [0..<min (t * c) n] @ [t * c..<min ((t + 1) * c) n]"
  proof (cases "t * c \<le> n")
    case True
    then have "min (t * c) n = t * c" by simp
    moreover have "t * c \<le> min (Suc t * c) n"
      using True by simp
    ultimately show ?thesis
      by (metis Suc_eq_plus1 le_iff_add upt_add_eq_append zero_le)
  next
    case False
    then show ?thesis by (simp add: min_def)
  qed
  then show ?case
    using Suc by simp
qed

lemma concat_copy_quad:
  "concat (map (copy_quad ix) [0..<m]) =
     map (\<lambda>p. (p, load ix (p div 6) 0 * 6 + p mod 6)) [0..<m * 6]"
proof (induction m)
  case 0
  show ?case by simp
next
  case (Suc m)
  have "[0..<Suc m * 6] = [0..<m * 6] @ [m * 6..<m * 6 + 6]"
    by (metis add.commute le_add2 mult_Suc upt_add_eq_append zero_le)
  then show ?case
    using Suc by (simp add: copy_quad_eq)
qed

lemma copy_stores:
  "dispatch_stores t (copyToIndexBuffer_main c n ix) =
     map (\<lambda>p. (p, load ix (p div 6) 0 * 6 + p mod 6)) [0..<min (t * c) n * 6]"
  unfolding dispatch_stores_def copyToIndexBuffer_main_def copy_loop_eq
  by (simp only: concat_chunks_min concat_copy_quad)

lemma computeDepth_dispatch:
  "dispatchWorkgroups t (computeDepth_main c n vs m) buf =
     map (\<lambda>p. if p < t * c then (if n \<le> p then sentinel else depth_of vs m p) else buf ! p)
       [0..<length buf]"
  unfolding dispatchWorkgroups_def computeDepth_stores
  by (rule foldl_store_range)

lemma copy_dispatch:
  "dispatchWorkgroups t (copyToIndexBuffer_main c n ix) buf =
     map (\<lambda>p. if p < min (t * c) n * 6 then load ix (p div 6) 0 * 6 + p mod 6 else buf ! p)
       [0..<length buf]"
  unfolding dispatchWorkgroups_def copy_stores
  by (rule foldl_store_range)

lemma length_computeDepth_dispatch [simp]:
  "length (dispatchWorkgroups t (computeDepth_main c n vs m) buf) = length buf"
  by (simp add: computeDepth_dispatch)

lemma length_copy_dispatch [simp]:
  "length (dispatchWorkgroups t (copyToIndexBuffer_main c n ix) buf) = length buf"
  by (simp add: copy_dispatch)

section \<open>The sort engine keeps the length\<close>

lemma blocks_Nil [simp]: "blocks n [] = []"
  by (simp add: blocks.simps)

lemma blocks_zero [simp]: "blocks 0 xs = []"
  by (simp add: blocks.simps)

lemma blocks_Cons: "0 < n \<Longrightarrow> xs \<noteq> [] \<Longrightarrow> blocks n xs = take n xs # blocks n (drop n xs)"
  by (subst blocks.simps) simp

lemma concat_blocks: "0 < n \<Longrightarrow> concat (blocks n xs) = xs"
proof (induction n xs rule: blocks.induct)
  case (1 n xs)
  then show ?case
    by (cases "xs = []") (simp_all add: blocks_Cons)
qed

lemma length_half_clean [simp]: "length (half_clean cx d j blk) = length blk"
  by (simp add: half_clean_def Let_def)

lemma length_concat_map:
  "(\<And>b. length (f b) = length b) \<Longrightarrow> length (concat (map f bs)) = length (concat bs)"
  by (induction bs) simp_all

lemma length_sub_blocks [simp]: "0 < j \<Longrightarrow> length (sub_blocks cx j d blk) = length blk"
proof -
  assume j: "0 < j"
  have "length (sub_blocks cx j d blk) = length (concat (blocks (2 * j) blk))"
    unfolding sub_blocks_def by (rule length_concat_map) simp
  then show ?thesis
    using j by (simp add: concat_blocks)
qed

lemma length_concat_alternating:
  "(\<And>d b. length (f d b) = length b) \<Longrightarrow>
     length (concat (alternating f d bs)) = length (concat bs)"
  by (induction bs arbitrary: d) simp_all

lemma length_compare_exchange_pass [simp]:
  "0 < k \<Longrightarrow> 0 < j \<Longrightarrow> length (compare_exchange_pass cx k j xs) = length xs"
proof -
  assume k: "0 < k" and j: "0 < j"
  have "length (compare_exchange_pass cx k j xs) = length (concat (blocks k xs))"
    unfolding compare_exchange_pass_def using j by (intro length_concat_alternating) simp
  then show ?thesis
    using k by (simp add: concat_blocks)
qed

lemma length_foldl_same:
  "(\<And>ys t. length (f ys t) = length ys) \<Longrightarrow> length (foldl f xs ts) = length xs"
  by (induction ts arbitrary: xs) simp_all

lemma length_major_stage [simp]: "length (major_stage cx s xs) = length xs"
  unfolding major_stage_def by (rule length_foldl_same) simp

lemma length_bitonic_network [simp]: "length (bitonic_network cx xs) = length xs"
  unfolding bitonic_network_def by (rule length_foldl_same) simp

lemma length_argsort [simp]: "length (argsort keys) = length keys"
  by (simp add: argsort_def)

section \<open>The padded length\<close>

text \<open>
  Claim C6. For every \<open>N \<ge> 1\<close>, \<open>nextPowerOfTwo N\<close> is a power of two, is at least \<open>N\<close>,
  is the smallest power of two that is at least \<open>N\<close>, and equals \<open>N\<close> when \<open>N\<close> is a
  power of two.
\<close>

theorem nextPowerOfTwo_padding:
  "1 \<le> n \<Longrightarrow>
     (\<exists>k. nextPowerOfTwo n = 2 ^ k) \<and> n \<le> nextPowerOfTwo n \<and>
     (\<forall>m. n \<le> 2 ^ m \<longrightarrow> nextPowerOfTwo n \<le> 2 ^ m) \<and>
     (\<forall>k. n = 2 ^ k \<longrightarrow> nextPowerOfTwo n = n)"
proof -
  assume "1 \<le> n"
  then have eq: "nextPowerOfTwo n = 2 ^ ceil_log2 n"
    by (simp add: nextPowerOfTwo_pos)
  have "\<exists>k. nextPowerOfTwo n = 2 ^ k"
    using eq by blast
  moreover have "n \<le> nextPowerOfTwo n"
    unfolding eq by (rule ceil_log2_upper)
  moreover have "\<forall>m. n \<le> 2 ^ m \<longrightarrow> nextPowerOfTwo n \<le> 2 ^ m"
    unfolding eq by (simp add: ceil_log2_least)
  moreover have "\<forall>k. n = 2 ^ k \<longrightarrow> nextPowerOfTwo n = n"
    unfolding eq by (simp add: ceil_log2_power)
  ultimately show ?thesis by blast
qed

text \<open>The claim at \<open>N = 5\<close> (padded to \<open>8\<close>) and at the power of two \<open>N = 8\<close>.\<close>

theorem nextPowerOfTwo_padding_witness:
  "(\<exists>k. nextPowerOfTwo 5 = 2 ^ k) \<and> 5 \<le> nextPowerOfTwo 5 \<and> nextPowerOfTwo 5 \<le> 2 ^ 3 \<and>
   nextPowerOfTwo (2 ^ 3) = 2 ^ 3"
proof -
  have five: "(1::nat) \<le> 5" by simp
  have eight: "(1::nat) \<le> 2 ^ 3" by simp
  have "(5::nat) \<le> 2 ^ 3" by simp
  then show ?thesis
    using nextPowerOfTwo_padding [OF five] nextPowerOfTwo_padding [OF eight] by blast
qed

section \<open>The constructor\<close>

text \<open>The object the constructor builds, with its six buffers at consecutive handles.\<close>

lemma DepthSorter_new_eq:
  "DepthSorter_new ctx g =
     (let n = numGaussians g; p = nextPowerOfTwo n; h = next_handle ctx in
      \<lparr>gpu = ctx\<lparr>buffers := (buffers ctx)
               (h \<mapsto> Vec3Array (packed_positions g),
                Suc h \<mapsto> F32Array (replicate p 0),
                Suc (Suc h) \<mapsto> F32Array (replicate p 0),
                Suc (Suc (Suc h)) \<mapsto> Uniform zero_mat4x4,
                Suc (Suc (Suc (Suc h))) \<mapsto> U32Array (replicate p 0),
                Suc (Suc (Suc (Suc (Suc h)))) \<mapsto> U32Array (replicate (n * 6) 0)),
             next_handle := Suc (Suc (Suc (Suc (Suc (Suc h)))))\<rparr>,
       nElements = n, nPadded = p, numThreads = 1024,
       positionsBuffer = h, projMatrixBuffer = Suc (Suc (Suc h)), depthBuffer = Suc h,
       indexBuffer = Suc (Suc (Suc (Suc (Suc h)))), indicesReadoutBuffer = Suc (Suc h),
       computeDepthPipeline = (ceil_div n 1024, n),
       computeDepthBindGroup = (h, Suc h, Suc (Suc (Suc h))),
       copyToIndexBufferPipeline = (ceil_div n 1024, n),
       copyToIndexBufferBindGroup = (Suc (Suc (Suc (Suc h))), Suc (Suc (Suc (Suc (Suc h))))),
       sorter = \<lparr>sorter_nElements = p, indicesBuffer = Suc (Suc (Suc (Suc h)))\<rparr>\<rparr>)"
  by (simp add: DepthSorter_new_def Let_def createBuffer_def BitonicSorter_new_def)

lemma DepthSorter_new_well_formed: "well_formed (DepthSorter_new ctx g)"
  by (simp add: DepthSorter_new_eq Let_def well_formed_def holds_vec3_def holds_f32_def
      holds_u32_def holds_uniform_def)

text \<open>
  Claim C7. With no gaussians (\<open>N = 0\<close>) the constructor computes the padded length
  \<open>nextPowerOfTwo 0 = 2 ^ (-Infinity) = 0\<close>, not \<open>1\<close>: zero is not a power of two. The
  index buffer has no entry, and \<open>itemsPerThread = ceil (0 / 1024) = 0\<close> (the divisor is
  the constant \<open>1024\<close>).
\<close>

theorem no_gaussians_padded_length:
  "nPadded (DepthSorter_new ctx \<lparr>numGaussians = 0, packed_positions = []\<rparr>) = 0 \<and>
   u32_data (gpu (DepthSorter_new ctx \<lparr>numGaussians = 0, packed_positions = []\<rparr>))
     (indexBuffer (DepthSorter_new ctx \<lparr>numGaussians = 0, packed_positions = []\<rparr>)) = [] \<and>
   computeDepthPipeline (DepthSorter_new ctx \<lparr>numGaussians = 0, packed_positions = []\<rparr>) = (0, 0)"
  by (simp add: DepthSorter_new_eq Let_def nextPowerOfTwo_def Math_ceil_log2_def Math_pow2_def
      u32_data_def ceil_div_def)


section \<open>The projection stage\<close>

text \<open>
  Claim C2 at \<open>N = 2049\<close> and at \<open>N = 4\<close>, for any positions and any matrix. With
  \<open>N = 2049\<close> the padded length is \<open>4096\<close> and \<open>itemsPerThread\<close> is \<open>3\<close>: no invocation of
  the \<open>1024\<close> has a store to slot \<open>3072\<close>, and the dispatch leaves that slot of the depth
  buffer as it was. With \<open>N = 4\<close> the padded length is \<open>4\<close> and \<open>itemsPerThread\<close> is \<open>1\<close>:
  invocation \<open>4\<close> has the store \<open>depths[4] = 1000000\<close>, at an index that is not below the
  padded length. The shader is given \<open>itemsPerThread\<close> and \<open>N\<close> and never the padded
  length; the copy shader leaves its loop at \<open>i >= N\<close>, the depth shader has no such bound.
\<close>

theorem projection_stage_misses_padding:
  "nextPowerOfTwo 2049 = 4096 \<and>
   3072 \<notin> fst ` set (dispatch_stores 1024 (computeDepth_main (ceil_div 2049 1024) 2049 vs m)) \<and>
   dispatchWorkgroups 1024 (computeDepth_main (ceil_div 2049 1024) 2049 vs m)
     (replicate 4096 0) ! 3072 = 0 \<and>
   nextPowerOfTwo 4 = 4 \<and>
   (4, sentinel) \<in> set (computeDepth_main (ceil_div 4 1024) 4 vs m 4)"
proof -
  have p: "nextPowerOfTwo 2049 = 4096" "nextPowerOfTwo 4 = 4"
    by (simp_all add: nextPowerOfTwo_def Math_ceil_log2_def Math_pow2_def ceil_log2.simps)
  have c: "ceil_div 2049 1024 = 3" "ceil_div 4 1024 = 1"
    by (simp_all add: ceil_div_def)
  have "3072 \<notin> fst ` set (dispatch_stores 1024 (computeDepth_main 3 2049 vs m))"
    by (simp add: computeDepth_stores image_image)
  moreover have "dispatchWorkgroups 1024 (computeDepth_main 3 2049 vs m) (replicate 4096 0) ! 3072 = 0"
    by (simp add: computeDepth_dispatch)
  moreover have "(4, sentinel) \<in> set (computeDepth_main 1 4 vs m 4)"
    by (simp add: computeDepth_main_def computeDepth_loop_eq)
  ultimately show ?thesis
    unfolding p c by simp
qed

section \<open>The index expansion stage\<close>

text \<open>
  Claim C4. After the copy shader has been dispatched over a permutation buffer with at
  least \<open>N\<close> entries and an index buffer of \<open>6 * N\<close> entries, entry \<open>6 * k + v\<close> of the
  index buffer is \<open>6 * permutation[k] + v\<close> for every \<open>k < N\<close> and \<open>v < 6\<close>; every store
  of the dispatch is at a position below \<open>6 * N\<close>, and the buffer still has \<open>6 * N\<close>
  entries.
\<close>

theorem index_expansion:
  assumes "n \<le> length perm" and "length ib = 6 * n"
  shows "(\<forall>k<n. \<forall>v<6.
            dispatchWorkgroups 1024 (copyToIndexBuffer_main (ceil_div n 1024) n perm) ib ! (6 * k + v) =
              6 * perm ! k + v) \<and>
         (\<forall>s \<in> set (dispatch_stores 1024 (copyToIndexBuffer_main (ceil_div n 1024) n perm)).
            fst s < 6 * n) \<and>
         length (dispatchWorkgroups 1024 (copyToIndexBuffer_main (ceil_div n 1024) n perm) ib) = 6 * n"
proof -
  have cover: "min (1024 * ceil_div n 1024) n = n"
    using ceil_div_covers [of 1024 n] by simp
  have "dispatchWorkgroups 1024 (copyToIndexBuffer_main (ceil_div n 1024) n perm) ib ! (6 * k + v) =
      6 * perm ! k + v" if "k < n" "v < 6" for k v
  proof -
    have "6 * k + v < 6 * n"
      using that by simp
    moreover have "(6 * k + v) div 6 = k" "(6 * k + v) mod 6 = v"
      using that by simp_all
    ultimately show ?thesis
      using that assms by (simp add: copy_dispatch cover load_def mult.commute)
  qed
  moreover have "fst s < 6 * n"
    if "s \<in> set (dispatch_stores 1024 (copyToIndexBuffer_main (ceil_div n 1024) n perm))" for s
    using that by (auto simp: copy_stores cover mult.commute)
  moreover have "length (dispatchWorkgroups 1024 (copyToIndexBuffer_main (ceil_div n 1024) n perm) ib) = 6 * n"
    using assms by (simp add: copy_dispatch)
  ultimately show ?thesis by blast
qed

text \<open>The claim at \<open>N = 3\<close> with the permutation \<open>[1, 2, 0, 3]\<close>: entry \<open>7\<close> is \<open>13\<close>.\<close>

theorem index_expansion_witness:
  "dispatchWorkgroups 1024 (copyToIndexBuffer_main (ceil_div 3 1024) 3 [1, 2, 0, 3])
     (replicate 18 0) ! 7 = 13 \<and>
   length (dispatchWorkgroups 1024 (copyToIndexBuffer_main (ceil_div 3 1024) 3 [1, 2, 0, 3])
     (replicate 18 0)) = 18"
proof -
  have a: "3 \<le> length [1, 2, 0, 3::nat]" by simp
  have b: "length (replicate 18 (0::nat)) = 6 * 3" by simp
  have k: "(1::nat) < 3" and v: "(1::nat) < 6" by simp_all
  from index_expansion [OF a b]
  have "dispatchWorkgroups 1024 (copyToIndexBuffer_main (ceil_div 3 1024) 3 [1, 2, 0, 3])
      (replicate 18 0) ! (6 * 1 + 1) = 6 * [1, 2, 0, 3::nat] ! 1 + 1"
    and "length (dispatchWorkgroups 1024 (copyToIndexBuffer_main (ceil_div 3 1024) 3 [1, 2, 0, 3])
      (replicate 18 0)) = 6 * 3"
    using k v by blast+
  then show ?thesis by simp
qed

section \<open>One call of sort\<close>

lemma sort_object: "fst (DepthSorter_sort oc m this) = this\<lparr>gpu := gpu (fst (DepthSorter_sort oc m this))\<rparr>"
  by (simp add: DepthSorter_sort_def Let_def)

lemma sort_returns: "snd (DepthSorter_sort oc m this) = indexBuffer this"
  by (simp add: DepthSorter_sort_def Let_def)

lemma no_fault_simps:
  "depth_outcome no_fault = Completed" "argsort_outcome no_fault = Completed"
  "copy_outcome no_fault = Completed"
  by (simp_all add: no_fault_def)

lemma f32_write_back:
  "holds_f32 ctx h n \<Longrightarrow> (buffers ctx)(h \<mapsto> F32Array (f32_data ctx h)) = buffers ctx"
  by (auto simp: holds_f32_def f32_data_def fun_upd_idem_iff split: option.splits gpu_data.splits)

lemma u32_write_back:
  "holds_u32 ctx h n \<Longrightarrow> (buffers ctx)(h \<mapsto> U32Array (u32_data ctx h)) = buffers ctx"
  by (auto simp: holds_u32_def u32_data_def fun_upd_idem_iff split: option.splits gpu_data.splits)

lemma f32_length: "holds_f32 ctx h n \<Longrightarrow> length (f32_data ctx h) = n"
  by (auto simp: holds_f32_def f32_data_def split: option.splits gpu_data.splits)

lemma u32_length: "holds_u32 ctx h n \<Longrightarrow> length (u32_data ctx h) = n"
  by (auto simp: holds_u32_def u32_data_def split: option.splits gpu_data.splits)

lemma writeBuffer_same:
  "holds_f32 ctx h n \<Longrightarrow> writeBuffer ctx h (F32Array (f32_data ctx h)) = ctx"
  "holds_u32 ctx h n \<Longrightarrow> writeBuffer ctx h (U32Array (u32_data ctx h)) = ctx"
  by (simp_all add: writeBuffer_def f32_write_back u32_write_back)

lemma submit_computeDepth:
  assumes "holds_f32 ctx d n"
  shows "submit oc (computeDepth_pass (c, k) (v, d, pm) t) ctx =
     writeBuffer ctx d (F32Array
       (if oc = Completed
        then dispatchWorkgroups t (computeDepth_main c k (vec3_data ctx v) (uniform_data ctx pm))
               (f32_data ctx d)
        else f32_data ctx d))"
  using writeBuffer_same(1) [OF assms]
  by (cases oc) (simp_all add: submit_def computeDepth_pass_def)

lemma submit_argsort:
  assumes "holds_u32 ctx (indicesBuffer srt) n"
  shows "submit oc (BitonicSorter_argsort srt v) ctx =
     writeBuffer ctx (indicesBuffer srt) (U32Array
       (if oc = Completed then argsort (f32_data ctx v) else u32_data ctx (indicesBuffer srt)))"
  using writeBuffer_same(2) [OF assms]
  by (cases oc) (simp_all add: submit_def BitonicSorter_argsort_def)

lemma submit_copyToIndexBuffer:
  assumes "holds_u32 ctx ib n"
  shows "submit oc (copyToIndexBuffer_pass (c, k) (ix, ib) t) ctx =
     writeBuffer ctx ib (U32Array
       (if oc = Completed
        then dispatchWorkgroups t (copyToIndexBuffer_main c k (u32_data ctx ix)) (u32_data ctx ib)
        else u32_data ctx ib))"
  using writeBuffer_same(2) [OF assms]
  by (cases oc) (simp_all add: submit_def copyToIndexBuffer_pass_def)

lemma data_writeBuffer:
  "h' \<noteq> h \<Longrightarrow> f32_data (writeBuffer ctx h x) h' = f32_data ctx h'"
  "h' \<noteq> h \<Longrightarrow> u32_data (writeBuffer ctx h x) h' = u32_data ctx h'"
  "h' \<noteq> h \<Longrightarrow> vec3_data (writeBuffer ctx h x) h' = vec3_data ctx h'"
  "h' \<noteq> h \<Longrightarrow> holds_f32 (writeBuffer ctx h x) h' n = holds_f32 ctx h' n"
  "h' \<noteq> h \<Longrightarrow> holds_u32 (writeBuffer ctx h x) h' n = holds_u32 ctx h' n"
  "f32_data (writeBuffer ctx h (F32Array xs)) h = xs"
  "u32_data (writeBuffer ctx h (U32Array ys)) h = ys"
  "uniform_data (writeBuffer ctx h (Uniform m)) h = m"
  by (simp_all add: writeBuffer_def f32_data_def u32_data_def vec3_data_def holds_f32_def
      holds_u32_def uniform_data_def)

text \<open>
  The device memory after one call of \<open>sort\<close>, for each outcome of its three pieces of
  work: a piece that faults leaves its buffer as it was.
\<close>

lemma sort_buffers:
  assumes "well_formed this"
  shows "gpu (fst (DepthSorter_sort oc m this)) =
    (let d = (if depth_outcome oc = Completed
              then dispatchWorkgroups 1024
                     (computeDepth_main (ceil_div (nElements this) 1024) (nElements this)
                        (vec3_data (gpu this) (positionsBuffer this)) m)
                     (f32_data (gpu this) (depthBuffer this))
              else f32_data (gpu this) (depthBuffer this));
         ix = (if argsort_outcome oc = Completed then argsort d
               else u32_data (gpu this) (indicesBuffer (sorter this)));
         ib = (if copy_outcome oc = Completed
               then dispatchWorkgroups 1024
                      (copyToIndexBuffer_main (ceil_div (nElements this) 1024) (nElements this) ix)
                      (u32_data (gpu this) (indexBuffer this))
               else u32_data (gpu this) (indexBuffer this))
     in writeBuffer (writeBuffer (writeBuffer (writeBuffer (gpu this)
          (projMatrixBuffer this) (Uniform m))
          (depthBuffer this) (F32Array d))
          (indicesBuffer (sorter this)) (U32Array ix))
          (indexBuffer this) (U32Array ib))"
proof -
  have ne: "positionsBuffer this \<noteq> projMatrixBuffer this"
      "depthBuffer this \<noteq> projMatrixBuffer this"
      "indexBuffer this \<noteq> projMatrixBuffer this"
      "indexBuffer this \<noteq> depthBuffer this"
      "indexBuffer this \<noteq> indicesBuffer (sorter this)"
      "indicesBuffer (sorter this) \<noteq> depthBuffer this"
      "indicesBuffer (sorter this) \<noteq> projMatrixBuffer this"
      "positionsBuffer this \<noteq> depthBuffer this"
      "depthBuffer this \<noteq> indicesBuffer (sorter this)"
    using assms by (auto simp: well_formed_def)
  have bound: "computeDepthBindGroup this = (positionsBuffer this, depthBuffer this, projMatrixBuffer this)"
      "copyToIndexBufferBindGroup this = (indicesBuffer (sorter this), indexBuffer this)"
      "computeDepthPipeline this = (ceil_div (nElements this) 1024, nElements this)"
      "copyToIndexBufferPipeline this = (ceil_div (nElements this) 1024, nElements this)"
      "numThreads this = 1024"
    using assms by (simp_all add: well_formed_def)
  have held: "holds_f32 (gpu this) (depthBuffer this) (nPadded this)"
      "holds_u32 (gpu this) (indicesBuffer (sorter this)) (nPadded this)"
      "holds_u32 (gpu this) (indexBuffer this) (nElements this * 6)"
    using assms unfolding well_formed_def by blast+
  define ctx1 where "ctx1 = writeBuffer (gpu this) (projMatrixBuffer this) (Uniform m)"
  define ctx2 where "ctx2 = submit (depth_outcome oc)
      (computeDepth_pass (computeDepthPipeline this) (computeDepthBindGroup this) (numThreads this)) ctx1"
  define ctx3 where "ctx3 = submit (argsort_outcome oc)
      (BitonicSorter_argsort (sorter this) (depthBuffer this)) ctx2"
  define ctx4 where "ctx4 = submit (copy_outcome oc)
      (copyToIndexBuffer_pass (copyToIndexBufferPipeline this) (copyToIndexBufferBindGroup this)
         (numThreads this)) ctx3"
  define d where "d = (if depth_outcome oc = Completed
              then dispatchWorkgroups 1024
                     (computeDepth_main (ceil_div (nElements this) 1024) (nElements this)
                        (vec3_data (gpu this) (positionsBuffer this)) m)
                     (f32_data (gpu this) (depthBuffer this))
              else f32_data (gpu this) (depthBuffer this))"
  define ix where "ix = (if argsort_outcome oc = Completed then argsort d
               else u32_data (gpu this) (indicesBuffer (sorter this)))"
  define ib where "ib = (if copy_outcome oc = Completed
               then dispatchWorkgroups 1024
                      (copyToIndexBuffer_main (ceil_div (nElements this) 1024) (nElements this) ix)
                      (u32_data (gpu this) (indexBuffer this))
               else u32_data (gpu this) (indexBuffer this))"
  have h1: "holds_f32 ctx1 (depthBuffer this) (nPadded this)"
    unfolding ctx1_def using held(1) ne by (simp add: data_writeBuffer)
  have "ctx2 = writeBuffer ctx1 (depthBuffer this) (F32Array
       (if depth_outcome oc = Completed
        then dispatchWorkgroups 1024
               (computeDepth_main (ceil_div (nElements this) 1024) (nElements this)
                  (vec3_data ctx1 (positionsBuffer this)) (uniform_data ctx1 (projMatrixBuffer this)))
               (f32_data ctx1 (depthBuffer this))
        else f32_data ctx1 (depthBuffer this)))"
    unfolding ctx2_def bound by (rule submit_computeDepth [OF h1])
  then have c2: "ctx2 = writeBuffer ctx1 (depthBuffer this) (F32Array d)"
    unfolding d_def ctx1_def using ne by (simp add: data_writeBuffer)
  have h2: "holds_u32 ctx2 (indicesBuffer (sorter this)) (nPadded this)"
    unfolding c2 ctx1_def using held(2) ne by (simp add: data_writeBuffer)
  have "ctx3 = writeBuffer ctx2 (indicesBuffer (sorter this)) (U32Array
       (if argsort_outcome oc = Completed then argsort (f32_data ctx2 (depthBuffer this))
        else u32_data ctx2 (indicesBuffer (sorter this))))"
    unfolding ctx3_def by (rule submit_argsort [OF h2])
  then have c3: "ctx3 = writeBuffer ctx2 (indicesBuffer (sorter this)) (U32Array ix)"
    unfolding ix_def c2 ctx1_def using ne by (simp add: data_writeBuffer)
  have h3: "holds_u32 ctx3 (indexBuffer this) (nElements this * 6)"
    unfolding c3 c2 ctx1_def using held(3) ne by (simp add: data_writeBuffer)
  have "ctx4 = writeBuffer ctx3 (indexBuffer this) (U32Array
       (if copy_outcome oc = Completed
        then dispatchWorkgroups 1024
               (copyToIndexBuffer_main (ceil_div (nElements this) 1024) (nElements this)
                  (u32_data ctx3 (indicesBuffer (sorter this))))
               (u32_data ctx3 (indexBuffer this))
        else u32_data ctx3 (indexBuffer this)))"
    unfolding ctx4_def bound by (rule submit_copyToIndexBuffer [OF h3])
  then have c4: "ctx4 = writeBuffer ctx3 (indexBuffer this) (U32Array ib)"
    unfolding ib_def c3 c2 ctx1_def using ne by (simp add: data_writeBuffer)
  have "gpu (fst (DepthSorter_sort oc m this)) = ctx4"
    by (simp add: DepthSorter_sort_def Let_def ctx4_def ctx3_def ctx2_def ctx1_def)
  then show ?thesis
    unfolding c4 c3 c2 ctx1_def Let_def d_def [symmetric] ix_def [symmetric] ib_def [symmetric]
    by simp
qed


lemma sort_depth_buffer:
  assumes "well_formed this"
  shows "f32_data (gpu (fst (DepthSorter_sort oc m this))) (depthBuffer this) =
     (if depth_outcome oc = Completed
      then dispatchWorkgroups 1024
             (computeDepth_main (ceil_div (nElements this) 1024) (nElements this)
                (vec3_data (gpu this) (positionsBuffer this)) m)
             (f32_data (gpu this) (depthBuffer this))
      else f32_data (gpu this) (depthBuffer this))"
proof -
  have "depthBuffer this \<noteq> indicesBuffer (sorter this)" "depthBuffer this \<noteq> indexBuffer this"
    using assms by (auto simp: well_formed_def)
  then show ?thesis
    unfolding sort_buffers [OF assms] Let_def by (simp add: data_writeBuffer)
qed

lemma sort_indices_buffer:
  assumes "well_formed this"
  shows "u32_data (gpu (fst (DepthSorter_sort oc m this))) (indicesBuffer (sorter this)) =
     (if argsort_outcome oc = Completed
      then argsort (f32_data (gpu (fst (DepthSorter_sort oc m this))) (depthBuffer this))
      else u32_data (gpu this) (indicesBuffer (sorter this)))"
proof -
  have "indicesBuffer (sorter this) \<noteq> indexBuffer this"
    using assms by (auto simp: well_formed_def)
  then show ?thesis
    unfolding sort_depth_buffer [OF assms]
    unfolding sort_buffers [OF assms] Let_def by (simp add: data_writeBuffer)
qed

lemma sort_index_buffer:
  assumes "well_formed this"
  shows "u32_data (gpu (fst (DepthSorter_sort oc m this))) (indexBuffer this) =
     (if copy_outcome oc = Completed
      then dispatchWorkgroups 1024
             (copyToIndexBuffer_main (ceil_div (nElements this) 1024) (nElements this)
                (u32_data (gpu (fst (DepthSorter_sort oc m this))) (indicesBuffer (sorter this))))
             (u32_data (gpu this) (indexBuffer this))
      else u32_data (gpu this) (indexBuffer this))"
  unfolding sort_indices_buffer [OF assms] sort_depth_buffer [OF assms]
  unfolding sort_buffers [OF assms] Let_def by (simp add: data_writeBuffer)

lemma sort_other_buffers:
  assumes "well_formed this"
    and "h \<noteq> projMatrixBuffer this" and "h \<noteq> depthBuffer this"
    and "h \<noteq> indicesBuffer (sorter this)" and "h \<noteq> indexBuffer this"
  shows "buffers (gpu (fst (DepthSorter_sort oc m this))) h = buffers (gpu this) h"
  unfolding sort_buffers [OF assms(1)] Let_def using assms(2-) by (simp add: writeBuffer_def)

lemma sort_next_handle:
  assumes "well_formed this"
  shows "next_handle (gpu (fst (DepthSorter_sort oc m this))) = next_handle (gpu this)"
  unfolding sort_buffers [OF assms] Let_def by (simp add: writeBuffer_def)

lemma holds_dom:
  "holds_f32 ctx h n \<Longrightarrow> h \<in> dom (buffers ctx)"
  "holds_u32 ctx h n \<Longrightarrow> h \<in> dom (buffers ctx)"
  "holds_uniform ctx h \<Longrightarrow> h \<in> dom (buffers ctx)"
  by (auto simp: holds_f32_def holds_u32_def holds_uniform_def split: option.splits)

lemma sort_dom:
  assumes "well_formed this"
  shows "dom (buffers (gpu (fst (DepthSorter_sort oc m this)))) = dom (buffers (gpu this))"
proof -
  have "projMatrixBuffer this \<in> dom (buffers (gpu this))"
      "depthBuffer this \<in> dom (buffers (gpu this))"
      "indicesBuffer (sorter this) \<in> dom (buffers (gpu this))"
      "indexBuffer this \<in> dom (buffers (gpu this))"
    using assms holds_dom [of "gpu this"] unfolding well_formed_def by blast+
  then show ?thesis
    unfolding sort_buffers [OF assms] Let_def by (auto simp: writeBuffer_def)
qed

lemma sort_well_formed:
  assumes "well_formed this"
  shows "well_formed (fst (DepthSorter_sort oc m this))"
proof -
  have held: "holds_f32 (gpu this) (depthBuffer this) (nPadded this)"
      "holds_u32 (gpu this) (indicesBuffer (sorter this)) (nPadded this)"
      "holds_u32 (gpu this) (indexBuffer this) (nElements this * 6)"
    using assms unfolding well_formed_def by blast+
  have ne: "positionsBuffer this \<noteq> projMatrixBuffer this"
      "positionsBuffer this \<noteq> depthBuffer this"
      "positionsBuffer this \<noteq> indicesBuffer (sorter this)"
      "positionsBuffer this \<noteq> indexBuffer this"
      "projMatrixBuffer this \<noteq> depthBuffer this"
      "projMatrixBuffer this \<noteq> indicesBuffer (sorter this)"
      "projMatrixBuffer this \<noteq> indexBuffer this"
      "depthBuffer this \<noteq> indicesBuffer (sorter this)"
      "depthBuffer this \<noteq> indexBuffer this"
      "indicesBuffer (sorter this) \<noteq> indexBuffer this"
    using assms by (auto simp: well_formed_def)
  have "well_formed (this\<lparr>gpu := gpu (fst (DepthSorter_sort oc m this))\<rparr>)"
    using assms ne f32_length [OF held(1)] u32_length [OF held(2)] u32_length [OF held(3)]
    unfolding sort_buffers [OF assms] Let_def
    by (simp add: well_formed_def writeBuffer_def holds_vec3_def holds_f32_def holds_u32_def
        holds_uniform_def)
  then show ?thesis
    using sort_object [of oc m this] by simp
qed

section \<open>Device faults\<close>

text \<open>
  Against claim C9: when the depth dispatch of a call faults, \<open>sort\<close> returns the same
  buffer object as the fault-free call and leaves the same object fields, so the caller
  has nothing to tell the two calls apart.
\<close>

theorem sort_hides_device_fault:
  "depth_outcome \<lparr>depth_outcome = DeviceFault, argsort_outcome = Completed, copy_outcome = Completed\<rparr>
     = DeviceFault \<and>
   snd (DepthSorter_sort \<lparr>depth_outcome = DeviceFault, argsort_outcome = Completed, copy_outcome = Completed\<rparr>
          identity_mat4x4 (DepthSorter_new fresh_device three_gaussians)) =
   snd (DepthSorter_sort no_fault identity_mat4x4 (DepthSorter_new fresh_device three_gaussians)) \<and>
   (fst (DepthSorter_sort \<lparr>depth_outcome = DeviceFault, argsort_outcome = Completed, copy_outcome = Completed\<rparr>
          identity_mat4x4 (DepthSorter_new fresh_device three_gaussians)))\<lparr>gpu := fresh_device\<rparr> =
   (fst (DepthSorter_sort no_fault identity_mat4x4 (DepthSorter_new fresh_device three_gaussians)))\<lparr>gpu := fresh_device\<rparr>"
  by (simp add: DepthSorter_sort_def Let_def)

text \<open>
  Claim C9, as the code has it. Whatever the outcomes of its three pieces of device work,
  \<open>sort\<close> returns \<open>this.indexBuffer\<close> and changes no field of the object but the device
  memory: a device fault is not reported to the caller.
\<close>

theorem sort_reports_no_fault:
  "snd (DepthSorter_sort oc m this) = indexBuffer this \<and> (fst (DepthSorter_sort oc m this))\<lparr>gpu := gpu this\<rparr> = this"
  by (simp add: DepthSorter_sort_def Let_def)

section \<open>What a call of sort changes\<close>

text \<open>
  Claim C10. A call of \<open>sort\<close> on a depth sorter as constructed returns the object's
  index buffer, which is the same object after the call; it allocates no buffer (the
  next free handle and the set of allocated handles are unchanged); it changes the
  contents of no buffer but the projection-matrix, depth, permutation and index buffers,
  so the positions buffer is unchanged; the counts \<open>nElements\<close>, \<open>nPadded\<close> and
  \<open>numThreads\<close> are unchanged; and the object is again as constructed, so the same
  holds for every later call.
\<close>

theorem sort_frame:
  assumes "well_formed this"
  shows "snd (DepthSorter_sort oc m this) = indexBuffer this \<and>
         indexBuffer (fst (DepthSorter_sort oc m this)) = indexBuffer this \<and>
         next_handle (gpu (fst (DepthSorter_sort oc m this))) = next_handle (gpu this) \<and>
         dom (buffers (gpu (fst (DepthSorter_sort oc m this)))) = dom (buffers (gpu this)) \<and>
         (\<forall>h. h \<notin> {projMatrixBuffer this, depthBuffer this, indicesBuffer (sorter this),
                      indexBuffer this} \<longrightarrow>
              buffers (gpu (fst (DepthSorter_sort oc m this))) h = buffers (gpu this) h) \<and>
         buffers (gpu (fst (DepthSorter_sort oc m this))) (positionsBuffer this) =
           buffers (gpu this) (positionsBuffer this) \<and>
         nElements (fst (DepthSorter_sort oc m this)) = nElements this \<and>
         nPadded (fst (DepthSorter_sort oc m this)) = nPadded this \<and>
         numThreads (fst (DepthSorter_sort oc m this)) = numThreads this \<and>
         well_formed (fst (DepthSorter_sort oc m this))"
proof -
  have obj: "fst (DepthSorter_sort oc m this) = this\<lparr>gpu := gpu (fst (DepthSorter_sort oc m this))\<rparr>"
    by (rule sort_object)
  have fields: "indexBuffer (fst (DepthSorter_sort oc m this)) = indexBuffer this"
      "nElements (fst (DepthSorter_sort oc m this)) = nElements this"
      "nPadded (fst (DepthSorter_sort oc m this)) = nPadded this"
      "numThreads (fst (DepthSorter_sort oc m this)) = numThreads this"
    by (subst obj, simp)+
  have others: "\<forall>h. h \<notin> {projMatrixBuffer this, depthBuffer this, indicesBuffer (sorter this),
        indexBuffer this} \<longrightarrow> buffers (gpu (fst (DepthSorter_sort oc m this))) h = buffers (gpu this) h"
    using sort_other_buffers [OF assms] by simp
  have "positionsBuffer this \<notin> {projMatrixBuffer this, depthBuffer this,
      indicesBuffer (sorter this), indexBuffer this}"
    using assms by (auto simp: well_formed_def)
  with others have "buffers (gpu (fst (DepthSorter_sort oc m this))) (positionsBuffer this) =
      buffers (gpu this) (positionsBuffer this)"
    by blast
  then show ?thesis
    using fields others sort_returns [of oc m this] sort_next_handle [OF assms, of oc m]
      sort_dom [OF assms, of oc m] sort_well_formed [OF assms, of oc m]
    by blast
qed


text \<open>The buffers of a new depth sorter.\<close>

lemma DepthSorter_new_data:
  "nElements (DepthSorter_new ctx g) = numGaussians g"
  "nPadded (DepthSorter_new ctx g) = nextPowerOfTwo (numGaussians g)"
  "vec3_data (gpu (DepthSorter_new ctx g)) (positionsBuffer (DepthSorter_new ctx g)) =
     packed_positions g"
  "f32_data (gpu (DepthSorter_new ctx g)) (depthBuffer (DepthSorter_new ctx g)) =
     replicate (nextPowerOfTwo (numGaussians g)) 0"
  "u32_data (gpu (DepthSorter_new ctx g)) (indexBuffer (DepthSorter_new ctx g)) =
     replicate (numGaussians g * 6) 0"
  "next_handle (gpu (DepthSorter_new ctx g)) = next_handle ctx + 6"
  by (simp_all add: DepthSorter_new_eq Let_def vec3_data_def f32_data_def u32_data_def)

text \<open>The claim at the first call on the sorter of the three gaussians.\<close>

theorem sort_frame_witness:
  "snd (DepthSorter_sort no_fault identity_mat4x4 (DepthSorter_new fresh_device three_gaussians)) =
     indexBuffer (DepthSorter_new fresh_device three_gaussians) \<and>
   next_handle (gpu (fst (DepthSorter_sort no_fault identity_mat4x4
     (DepthSorter_new fresh_device three_gaussians)))) = 6 \<and>
   nElements (fst (DepthSorter_sort no_fault identity_mat4x4
     (DepthSorter_new fresh_device three_gaussians))) = 3 \<and>
   vec3_data (gpu (fst (DepthSorter_sort no_fault identity_mat4x4
     (DepthSorter_new fresh_device three_gaussians))))
     (positionsBuffer (DepthSorter_new fresh_device three_gaussians)) =
     [(0, 0, 5), (0, 0, 1), (0, 0, 3)]"
proof -
  have wf: "well_formed (DepthSorter_new fresh_device three_gaussians)"
    by (rule DepthSorter_new_well_formed)
  have "vec3_data (gpu (fst (DepthSorter_sort no_fault identity_mat4x4
      (DepthSorter_new fresh_device three_gaussians))))
      (positionsBuffer (DepthSorter_new fresh_device three_gaussians)) =
    vec3_data (gpu (DepthSorter_new fresh_device three_gaussians))
      (positionsBuffer (DepthSorter_new fresh_device three_gaussians))"
    using sort_frame [OF wf, of no_fault identity_mat4x4] by (simp add: vec3_data_def)
  then show ?thesis
    using sort_frame [OF wf, of no_fault identity_mat4x4]
    by (simp add: DepthSorter_new_data three_gaussians_def fresh_device_def)
qed

section \<open>Padding that no invocation writes\<close>

text \<open>
  The depth buffer after the projection stage of a call, slot by slot: the depth of the
  gaussian below \<open>N\<close>, the sentinel up to the last index the invocations reach, and the
  previous contents beyond.
\<close>

lemma projection_stage_slots:
  assumes "well_formed this" and "i < nPadded this"
  shows "f32_data (gpu (fst (DepthSorter_sort no_fault m this))) (depthBuffer this) ! i =
     (if i < nElements this then depth_of (vec3_data (gpu this) (positionsBuffer this)) m i
      else if i < 1024 * ceil_div (nElements this) 1024 then sentinel
      else f32_data (gpu this) (depthBuffer this) ! i)"
proof -
  have "holds_f32 (gpu this) (depthBuffer this) (nPadded this)"
    using assms(1) unfolding well_formed_def by blast
  then have "length (f32_data (gpu this) (depthBuffer this)) = nPadded this"
    by (rule f32_length)
  moreover have "nElements this \<le> 1024 * ceil_div (nElements this) 1024"
    by (rule ceil_div_covers) simp
  ultimately show ?thesis
    unfolding sort_depth_buffer [OF assms(1)] no_fault_simps
    using assms(2) by (simp add: computeDepth_dispatch)
qed

text \<open>
  Claim C1 at \<open>N = 2049\<close>: the padded length is \<open>4096\<close> and \<open>itemsPerThread\<close> is \<open>3\<close>, so
  the \<open>1024\<close> invocations store to the slots \<open>[0, 3072)\<close> only. After the first call of
  \<open>sort\<close> slot \<open>3072\<close>, a padding slot, still holds the \<open>0\<close> the buffer was created with,
  not the sentinel, whatever the projection matrix.
\<close>

theorem padding_left_unwritten:
  "nPadded (DepthSorter_new fresh_device
      \<lparr>numGaussians = 2049, packed_positions = replicate 2049 (0, 0, 1)\<rparr>) = 4096 \<and>
   f32_data (gpu (fst (DepthSorter_sort no_fault m (DepthSorter_new fresh_device
      \<lparr>numGaussians = 2049, packed_positions = replicate 2049 (0, 0, 1)\<rparr>))))
     (depthBuffer (DepthSorter_new fresh_device
      \<lparr>numGaussians = 2049, packed_positions = replicate 2049 (0, 0, 1)\<rparr>)) ! 3072 = 0 \<and>
   sentinel \<noteq> 0"
proof -
  have p: "nextPowerOfTwo 2049 = 4096"
    by (simp add: nextPowerOfTwo_def Math_ceil_log2_def Math_pow2_def ceil_log2.simps)
  have c: "ceil_div 2049 1024 = 3"
    by (simp add: ceil_div_def)
  show ?thesis
    by (simp add: sort_depth_buffer [OF DepthSorter_new_well_formed] DepthSorter_new_data
        no_fault_def computeDepth_dispatch p c sentinel_def)
qed

section \<open>Calling sort twice, stores past the end skipped\<close>

lemma computeDepth_dispatch_twice:
  "dispatchWorkgroups t (computeDepth_main c n vs m)
     (dispatchWorkgroups t (computeDepth_main c n vs m) buf) =
   dispatchWorkgroups t (computeDepth_main c n vs m) buf"
  by (rule nth_equalityI) (simp_all add: computeDepth_dispatch)

lemma copy_dispatch_twice:
  "dispatchWorkgroups t (copyToIndexBuffer_main c n ix)
     (dispatchWorkgroups t (copyToIndexBuffer_main c n ix) buf) =
   dispatchWorkgroups t (copyToIndexBuffer_main c n ix) buf"
  by (rule nth_equalityI) (simp_all add: copy_dispatch)

text \<open>
  On a device that skips the stores past the end of a binding, and with an engine that
  leaves the depth buffer as it receives it, a second call of \<open>sort\<close> with the same
  projection matrix leaves the index buffer of the first. Neither condition comes from
  the sources of the depth sorter: the first is one of two behaviours of the device, the
  second is how the engine is modelled here.
\<close>

lemma sort_repeats_when_stores_skipped:
  assumes "well_formed this"
  shows "u32_data (gpu (fst (DepthSorter_sort no_fault m (fst (DepthSorter_sort no_fault m this))))) (indexBuffer this) =
         u32_data (gpu (fst (DepthSorter_sort no_fault m this))) (indexBuffer this)"
proof -
  let ?this1 = "fst (DepthSorter_sort no_fault m this)"
  have wf1: "well_formed ?this1"
    using assms by (rule sort_well_formed)
  have obj: "?this1 = this\<lparr>gpu := gpu ?this1\<rparr>"
    by (rule sort_object)
  have fields: "indexBuffer ?this1 = indexBuffer this" "depthBuffer ?this1 = depthBuffer this"
      "positionsBuffer ?this1 = positionsBuffer this" "nElements ?this1 = nElements this"
      "indicesBuffer (sorter ?this1) = indicesBuffer (sorter this)"
    by (subst obj, simp)+
  have "positionsBuffer this \<noteq> projMatrixBuffer this" "positionsBuffer this \<noteq> depthBuffer this"
      "positionsBuffer this \<noteq> indicesBuffer (sorter this)" "positionsBuffer this \<noteq> indexBuffer this"
    using assms by (auto simp: well_formed_def)
  then have "buffers (gpu ?this1) (positionsBuffer this) = buffers (gpu this) (positionsBuffer this)"
    by (rule sort_other_buffers [OF assms])
  then have pos: "vec3_data (gpu ?this1) (positionsBuffer this) =
      vec3_data (gpu this) (positionsBuffer this)"
    by (simp add: vec3_data_def)
  have d2: "f32_data (gpu (fst (DepthSorter_sort no_fault m ?this1))) (depthBuffer this) =
      f32_data (gpu ?this1) (depthBuffer this)"
    using sort_depth_buffer [OF wf1, of no_fault m] sort_depth_buffer [OF assms, of no_fault m]
    by (simp add: fields pos no_fault_simps computeDepth_dispatch_twice)
  have ix2: "u32_data (gpu (fst (DepthSorter_sort no_fault m ?this1))) (indicesBuffer (sorter this)) =
      u32_data (gpu ?this1) (indicesBuffer (sorter this))"
    using sort_indices_buffer [OF wf1, of no_fault m] sort_indices_buffer [OF assms, of no_fault m]
    by (simp add: fields d2 no_fault_simps)
  show ?thesis
    using sort_index_buffer [OF wf1, of no_fault m] sort_index_buffer [OF assms, of no_fault m]
    by (simp add: fields ix2 no_fault_simps copy_dispatch_twice)
qed

section \<open>The sorting network, block by block\<close>

lemma blocks_append_one:
  "0 < n \<Longrightarrow> length xs = n \<Longrightarrow> blocks n (xs @ ys) = xs # blocks n ys"
  by (subst blocks.simps) auto

lemma blocks_concat:
  "0 < n \<Longrightarrow> \<forall>b\<in>set bs. length b = n \<Longrightarrow> blocks n (concat bs) = bs"
  by (induction bs) (simp_all add: blocks_append_one)

lemma blocks_append:
  "0 < n \<Longrightarrow> n dvd length xs \<Longrightarrow> blocks n (xs @ ys) = blocks n xs @ blocks n ys"
proof (induction n xs rule: blocks.induct)
  case (1 n xs)
  show ?case
  proof (cases "xs = []")
    case True
    then show ?thesis by simp
  next
    case False
    with 1(3) 1(2) have len: "n \<le> length xs"
      by (auto dest: dvd_imp_le)
    then have dv: "n dvd length (drop n xs)"
      using 1(3) by (simp add: dvd_diff_nat)
    have "blocks n (xs @ ys) = take n xs # blocks n (drop n xs @ ys)"
      using 1(2) False len by (subst blocks.simps) simp
    also have "\<dots> = take n xs # blocks n (drop n xs) @ blocks n ys"
      using 1(1) [OF _ 1(2) dv] False 1(2) by simp
    also have "\<dots> = blocks n xs @ blocks n ys"
      using 1(2) False by (simp add: blocks_Cons)
    finally show ?thesis .
  qed
qed

lemma length_in_blocks:
  "0 < n \<Longrightarrow> n dvd length xs \<Longrightarrow> b \<in> set (blocks n xs) \<Longrightarrow> length b = n"
proof (induction n xs rule: blocks.induct)
  case (1 n xs)
  show ?case
  proof (cases "xs = []")
    case True
    with 1(4) show ?thesis by simp
  next
    case False
    with 1(3) 1(2) have len: "n \<le> length xs"
      by (auto dest: dvd_imp_le)
    then have dv: "n dvd length (drop n xs)"
      using 1(3) by (simp add: dvd_diff_nat)
    from 1(4) have "b = take n xs \<or> b \<in> set (blocks n (drop n xs))"
      using 1(2) False by (simp add: blocks_Cons)
    then show ?thesis
      using 1(1) [OF _ 1(2) dv] False 1(2) len by auto
  qed
qed

lemma blocks_single: "0 < n \<Longrightarrow> length xs = n \<Longrightarrow> blocks n xs = [xs]"
  using blocks_append_one [of n xs "[]"] by simp

lemma alternating_alternating:
  "alternating g d (alternating f d bs) = alternating (\<lambda>d blk. g d (f d blk)) d bs"
  by (induction bs arbitrary: d) simp_all

lemma length_in_alternating:
  "(\<And>d b. length (f d b) = length b) \<Longrightarrow> \<forall>b\<in>set bs. length b = n \<Longrightarrow>
     \<forall>b\<in>set (alternating f d bs). length b = n"
  by (induction bs arbitrary: d) simp_all

lemma pass_concat:
  "0 < k \<Longrightarrow> \<forall>b\<in>set bs. length b = k \<Longrightarrow>
     compare_exchange_pass cx k j (concat bs) = concat (alternating (sub_blocks cx j) True bs)"
  by (simp add: compare_exchange_pass_def blocks_concat)

lemma passes_concat:
  assumes "0 < k" and "\<forall>b\<in>set bs. length b = k"
  shows "foldl (\<lambda>ys t. compare_exchange_pass cx k (2 ^ t) ys) (concat bs) ts =
     concat (alternating (\<lambda>d blk. foldl (\<lambda>ys t. sub_blocks cx (2 ^ t) d ys) blk ts) True bs)"
  using assms(2)
proof (induction ts arbitrary: bs)
  case Nil
  have "alternating (\<lambda>d blk. blk) d bs = bs" for d
    by (induction bs arbitrary: d) simp_all
  then show ?case by simp
next
  case (Cons t ts)
  let ?bs' = "alternating (sub_blocks cx (2 ^ t)) True bs"
  have len: "\<forall>b\<in>set ?bs'. length b = k"
    using Cons.prems by (intro length_in_alternating) simp_all
  have "foldl (\<lambda>ys t. compare_exchange_pass cx k (2 ^ t) ys) (concat bs) (t # ts) =
      foldl (\<lambda>ys t. compare_exchange_pass cx k (2 ^ t) ys) (concat ?bs') ts"
    using assms(1) Cons.prems by (simp add: pass_concat)
  also have "\<dots> = concat (alternating
      (\<lambda>d blk. foldl (\<lambda>ys t. sub_blocks cx (2 ^ t) d ys) blk ts) True ?bs')"
    using len by (rule Cons.IH)
  finally show ?case
    by (simp add: alternating_alternating)
qed

lemma major_stage_blocks:
  assumes "\<forall>b\<in>set bs. length b = 2 ^ (s + 1)"
  shows "major_stage cx s (concat bs) =
     concat (alternating (\<lambda>d. merge_block cx d (s + 1)) True bs)"
  unfolding major_stage_def merge_block_def
  by (rule passes_concat) (use assms in simp_all)

lemma sub_blocks_append:
  "0 < j \<Longrightarrow> 2 * j dvd length a \<Longrightarrow>
     sub_blocks cx j d (a @ b) = sub_blocks cx j d a @ sub_blocks cx j d b"
  by (simp add: sub_blocks_def blocks_append)

lemma foldl_sub_blocks_append:
  "\<forall>t\<in>set ts. 2 * 2 ^ t dvd length a \<Longrightarrow>
     foldl (\<lambda>ys t. sub_blocks cx (2 ^ t) d ys) (a @ b) ts =
     foldl (\<lambda>ys t. sub_blocks cx (2 ^ t) d ys) a ts @
     foldl (\<lambda>ys t. sub_blocks cx (2 ^ t) d ys) b ts"
proof (induction ts arbitrary: a b)
  case Nil
  show ?case by simp
next
  case (Cons t ts)
  have "\<forall>u\<in>set ts. 2 * 2 ^ u dvd length (sub_blocks cx (2 ^ t) d a)"
    using Cons.prems by simp
  then show ?case
    using Cons.prems by (simp add: sub_blocks_append Cons.IH)
qed

lemma merge_block_0 [simp]: "merge_block cx d 0 blk = blk"
  by (simp add: merge_block_def)

lemma length_merge_block [simp]: "length (merge_block cx d n blk) = length blk"
  unfolding merge_block_def by (rule length_foldl_same) simp

lemma merge_block_Suc:
  assumes "length blk = 2 ^ Suc n"
  shows "merge_block cx d (Suc n) blk =
     merge_block cx d n (take (2 ^ n) (half_clean cx d (2 ^ n) blk)) @
     merge_block cx d n (drop (2 ^ n) (half_clean cx d (2 ^ n) blk))"
proof -
  let ?h = "half_clean cx d (2 ^ n) blk"
  have first: "sub_blocks cx (2 ^ n) d blk = ?h"
    using assms by (simp add: sub_blocks_def blocks_single)
  have dv: "\<forall>t\<in>set (rev [0..<n]). 2 * 2 ^ t dvd length (take (2 ^ n) ?h)"
  proof
    fix t
    assume "t \<in> set (rev [0..<n])"
    then have "Suc t \<le> n" by simp
    then have "(2::nat) ^ Suc t dvd 2 ^ n"
      by (rule le_imp_power_dvd)
    then show "2 * 2 ^ t dvd length (take (2 ^ n) ?h)"
      using assms by simp
  qed
  have "merge_block cx d (Suc n) blk =
      foldl (\<lambda>ys t. sub_blocks cx (2 ^ t) d ys) (take (2 ^ n) ?h @ drop (2 ^ n) ?h) (rev [0..<n])"
    by (simp add: merge_block_def first)
  then show ?thesis
    unfolding merge_block_def foldl_sub_blocks_append [OF dv] .
qed

text \<open>The network commutes with a map that commutes with the compare-exchange.\<close>

lemma map_blocks: "blocks n (map g xs) = map (map g) (blocks n xs)"
proof (induction n xs rule: blocks.induct)
  case (1 n xs)
  show ?case
  proof (cases "n = 0 \<or> xs = []")
    case True
    then show ?thesis by auto
  next
    case False
    then show ?thesis
      using 1 by (simp add: blocks_Cons take_map drop_map)
  qed
qed

lemma map_half_clean:
  assumes "\<And>d a b. map_prod g g (cx d a b) = cx' d (g a) (g b)"
  shows "map g (half_clean cx d j blk) = half_clean cx' d j (map g blk)"
proof -
  have "map g (map fst (map2 (cx d) as bs)) = map fst (map2 (cx' d) (map g as) (map g bs)) \<and>
        map g (map snd (map2 (cx d) as bs)) = map snd (map2 (cx' d) (map g as) (map g bs))"
    for as bs
  proof (induction as arbitrary: bs)
    case Nil
    show ?case by simp
  next
    case (Cons a as)
    show ?case
    proof (cases bs)
      case Nil
      then show ?thesis by simp
    next
      case (Cons b bs')
      have "g (fst (cx d a b)) = fst (map_prod g g (cx d a b))"
          "g (snd (cx d a b)) = snd (map_prod g g (cx d a b))"
        by simp_all
      then have "g (fst (cx d a b)) = fst (cx' d (g a) (g b))"
          "g (snd (cx d a b)) = snd (cx' d (g a) (g b))"
        by (simp_all only: assms)
      then show ?thesis
        using Cons.IH [of bs'] by (simp add: Cons)
    qed
  qed
  then show ?thesis
    by (simp add: half_clean_def Let_def take_map drop_map)
qed

lemma map_sub_blocks:
  assumes "\<And>d a b. map_prod g g (cx d a b) = cx' d (g a) (g b)"
  shows "map g (sub_blocks cx j d blk) = sub_blocks cx' j d (map g blk)"
  by (simp add: sub_blocks_def map_concat map_blocks comp_def map_half_clean [of g cx cx', OF assms])

lemma map_alternating:
  "(\<And>d b. map g (f d b) = f' d (map g b)) \<Longrightarrow>
     map (map g) (alternating f d bs) = alternating f' d (map (map g) bs)"
  by (induction bs arbitrary: d) simp_all

lemma map_compare_exchange_pass:
  assumes "\<And>d a b. map_prod g g (cx d a b) = cx' d (g a) (g b)"
  shows "map g (compare_exchange_pass cx k j xs) = compare_exchange_pass cx' k j (map g xs)"
  unfolding compare_exchange_pass_def map_concat map_blocks
  by (subst map_alternating [where f' = "sub_blocks cx' j"]) (simp_all add: map_sub_blocks [of g cx cx', OF assms])

lemma map_foldl_commute:
  "(\<And>ys t. map g (f ys t) = f' (map g ys) t) \<Longrightarrow> map g (foldl f xs ts) = foldl f' (map g xs) ts"
  by (induction ts arbitrary: xs) simp_all

lemma map_major_stage:
  assumes "\<And>d a b. map_prod g g (cx d a b) = cx' d (g a) (g b)"
  shows "map g (major_stage cx s xs) = major_stage cx' s (map g xs)"
  unfolding major_stage_def
  by (rule map_foldl_commute) (rule map_compare_exchange_pass [of g cx cx', OF assms])

lemma map_bitonic_network:
  assumes "\<And>d a b. map_prod g g (cx d a b) = cx' d (g a) (g b)"
  shows "map g (bitonic_network cx xs) = bitonic_network cx' (map g xs)"
proof -
  have "map g (foldl (\<lambda>ys s. major_stage cx s ys) xs ss) =
      foldl (\<lambda>ys s. major_stage cx' s ys) (map g xs) ss" for ss
    by (rule map_foldl_commute) (rule map_major_stage [of g cx cx', OF assms])
  then show ?thesis
    by (simp add: bitonic_network_def)
qed

text \<open>A compare-exchange keeps or swaps its two elements, so the network permutes.\<close>

lemma mset_half_clean:
  assumes "\<And>d a b. cx d a b = (a, b) \<or> cx d a b = (b, a)"
  shows "mset (half_clean cx d j blk) = mset blk"
proof -
  have "mset (map fst (map2 (cx d) as bs)) + mset (map snd (map2 (cx d) as bs)) =
      mset as + mset bs" if "length as = length bs" for as bs
    using that
  proof (induction as bs rule: list_induct2)
    case Nil
    show ?case by simp
  next
    case (Cons a as b bs)
    then show ?case
      using assms [of d a b] by auto
  qed
  from this [of "take j blk" "drop j blk"]
  have "length blk = 2 * j \<Longrightarrow> mset (half_clean cx d j blk) = mset (take j blk) + mset (drop j blk)"
    by (simp add: half_clean_def Let_def)
  moreover have "mset (take j blk) + mset (drop j blk) = mset blk"
    by (metis append_take_drop_id mset_append)
  ultimately show ?thesis
    by (cases "length blk = 2 * j") (simp_all add: half_clean_def)
qed

lemma mset_concat_map:
  "(\<And>b. mset (f b) = mset b) \<Longrightarrow> mset (concat (map f bs)) = mset (concat bs)"
  by (induction bs) simp_all

lemma mset_sub_blocks:
  assumes "\<And>d a b. cx d a b = (a, b) \<or> cx d a b = (b, a)" and "0 < j"
  shows "mset (sub_blocks cx j d blk) = mset blk"
proof -
  have "mset (sub_blocks cx j d blk) = mset (concat (blocks (2 * j) blk))"
    unfolding sub_blocks_def by (rule mset_concat_map) (rule mset_half_clean [OF assms(1)])
  then show ?thesis
    using assms(2) by (simp add: concat_blocks)
qed

lemma mset_concat_alternating:
  "(\<And>d b. mset (f d b) = mset b) \<Longrightarrow> mset (concat (alternating f d bs)) = mset (concat bs)"
  by (induction bs arbitrary: d) simp_all

lemma mset_compare_exchange_pass:
  assumes "\<And>d a b. cx d a b = (a, b) \<or> cx d a b = (b, a)" and "0 < k" and "0 < j"
  shows "mset (compare_exchange_pass cx k j xs) = mset xs"
proof -
  have "mset (compare_exchange_pass cx k j xs) = mset (concat (blocks k xs))"
    unfolding compare_exchange_pass_def
    by (rule mset_concat_alternating) (rule mset_sub_blocks [OF assms(1,3)])
  then show ?thesis
    using assms(2) by (simp add: concat_blocks)
qed

lemma mset_foldl_same:
  "(\<And>ys t. mset (f ys t) = mset ys) \<Longrightarrow> mset (foldl f xs ts) = mset xs"
  by (induction ts arbitrary: xs) simp_all

lemma mset_merge_block:
  assumes "\<And>d a b. cx d a b = (a, b) \<or> cx d a b = (b, a)"
  shows "mset (merge_block cx d n blk) = mset blk"
  unfolding merge_block_def
  by (rule mset_foldl_same) (rule mset_sub_blocks [OF assms], simp)

lemma mset_major_stage:
  assumes "\<And>d a b. cx d a b = (a, b) \<or> cx d a b = (b, a)"
  shows "mset (major_stage cx s xs) = mset xs"
  unfolding major_stage_def
  by (rule mset_foldl_same) (rule mset_compare_exchange_pass [OF assms], simp_all)

lemma mset_bitonic_network:
  assumes "\<And>d a b. cx d a b = (a, b) \<or> cx d a b = (b, a)"
  shows "mset (bitonic_network cx xs) = mset xs"
  unfolding bitonic_network_def
  by (rule mset_foldl_same) (rule mset_major_stage [OF assms])

section \<open>Bitonic sequences of truth values\<close>

lemma key_exchange_bool:
  "key_exchange d a b = (if d then (a \<and> b, a \<or> b) else (a \<or> b, a \<and> b))"
  by (cases a; cases b; simp add: key_exchange_def)

text \<open>
  The half-cleaner on a bitonic sequence of truth values, on the positions: \<open>f\<close> is the
  block of \<open>2 * n\<close> values, the conjunctions are the lower outputs, the disjunctions the
  upper ones.
\<close>

lemma interval_halves:
  fixes f :: "nat \<Rightarrow> bool" and n a b :: nat
  assumes "\<forall>p<2 * n. f p = (a \<le> p \<and> p < b)" and "p < n"
  shows "f p = (a \<le> p \<and> p < b)" and "f (p + n) = (a \<le> p + n \<and> p + n < b)"
  using assms by simp_all

lemma interval_lower:
  fixes f :: "nat \<Rightarrow> bool" and n a b :: nat
  assumes "\<forall>p<2 * n. f p = (a \<le> p \<and> p < b)"
  shows "\<forall>p<n. (f p \<and> f (p + n)) = (a \<le> p \<and> p < b - n)"
proof (intro allI impI)
  fix p
  assume "p < n"
  then show "(f p \<and> f (p + n)) = (a \<le> p \<and> p < b - n)"
    unfolding interval_halves [OF assms \<open>p < n\<close>] by auto
qed

lemma interval_upper:
  fixes f :: "nat \<Rightarrow> bool" and n a b :: nat
  assumes "\<forall>p<2 * n. f p = (a \<le> p \<and> p < b)"
  shows "\<exists>i j. (\<forall>p<n. (f p \<or> f (p + n)) = (i \<le> p \<and> p < j)) \<or>
               (\<forall>p<n. (f p \<or> f (p + n)) = (\<not> (i \<le> p \<and> p < j)))"
proof -
  consider "b \<le> n" | "n \<le> a" | "a < n" "n < b"
    by linarith
  then show ?thesis
  proof cases
    case 1
    have "(f p \<or> f (p + n)) = (a \<le> p \<and> p < b)" if "p < n" for p
      unfolding interval_halves [OF assms that] using 1 that by auto
    then show ?thesis by blast
  next
    case 2
    have "(f p \<or> f (p + n)) = (a - n \<le> p \<and> p < b - n)" if "p < n" for p
      unfolding interval_halves [OF assms that] using 2 that by auto
    then show ?thesis by blast
  next
    case 3
    have "(f p \<or> f (p + n)) = (\<not> (b - n \<le> p \<and> p < a))" if "p < n" for p
      unfolding interval_halves [OF assms that] using 3 that by auto
    then show ?thesis by blast
  qed
qed

lemma interval_clean:
  fixes f :: "nat \<Rightarrow> bool" and n a b :: nat
  assumes "\<forall>p<2 * n. f p = (a \<le> p \<and> p < b)"
  shows "(\<forall>p<n. \<not> (f p \<and> f (p + n))) \<or> (\<forall>p<n. f p \<or> f (p + n))"
proof (cases "\<exists>q<n. a \<le> q \<and> q + n < b")
  case True
  then obtain q where q: "q < n" "a \<le> q" "q + n < b"
    by blast
  have "f p \<or> f (p + n)" if "p < n" for p
    unfolding interval_halves [OF assms that] using q that by auto
  then show ?thesis by blast
next
  case False
  have "\<not> (f p \<and> f (p + n))" if "p < n" for p
    unfolding interval_halves [OF assms that] using False that by auto
  then show ?thesis by blast
qed


lemma bitonic_halves:
  fixes f :: "nat \<Rightarrow> bool" and n :: nat
  assumes "\<exists>a b. (\<forall>p<2 * n. f p = (a \<le> p \<and> p < b)) \<or> (\<forall>p<2 * n. f p = (\<not> (a \<le> p \<and> p < b)))"
  shows "\<exists>i j. (\<forall>p<n. (f p \<and> f (p + n)) = (i \<le> p \<and> p < j)) \<or>
               (\<forall>p<n. (f p \<and> f (p + n)) = (\<not> (i \<le> p \<and> p < j)))"
    and "\<exists>i j. (\<forall>p<n. (f p \<or> f (p + n)) = (i \<le> p \<and> p < j)) \<or>
               (\<forall>p<n. (f p \<or> f (p + n)) = (\<not> (i \<le> p \<and> p < j)))"
    and "(\<forall>p<n. \<not> (f p \<and> f (p + n))) \<or> (\<forall>p<n. f p \<or> f (p + n))"
proof -
  from assms obtain a b where
    ab: "(\<forall>p<2 * n. f p = (a \<le> p \<and> p < b)) \<or> (\<forall>p<2 * n. (\<not> f p) = (a \<le> p \<and> p < b))"
    by auto
  have "(\<exists>i j. (\<forall>p<n. (f p \<and> f (p + n)) = (i \<le> p \<and> p < j)) \<or>
               (\<forall>p<n. (f p \<and> f (p + n)) = (\<not> (i \<le> p \<and> p < j)))) \<and>
        (\<exists>i j. (\<forall>p<n. (f p \<or> f (p + n)) = (i \<le> p \<and> p < j)) \<or>
               (\<forall>p<n. (f p \<or> f (p + n)) = (\<not> (i \<le> p \<and> p < j)))) \<and>
        ((\<forall>p<n. \<not> (f p \<and> f (p + n))) \<or> (\<forall>p<n. f p \<or> f (p + n)))"
    using ab
  proof
    assume one: "\<forall>p<2 * n. f p = (a \<le> p \<and> p < b)"
    show ?thesis
      using interval_lower [OF one] interval_upper [OF one] interval_clean [OF one] by blast
  next
    assume two: "\<forall>p<2 * n. (\<not> f p) = (a \<le> p \<and> p < b)"
    have lower: "\<forall>p<n. (f p \<or> f (p + n)) = (\<not> (a \<le> p \<and> p < b - n))"
      using interval_lower [OF two] by auto
    obtain i j where upper: "(\<forall>p<n. (f p \<and> f (p + n)) = (\<not> (i \<le> p \<and> p < j))) \<or>
        (\<forall>p<n. (f p \<and> f (p + n)) = (i \<le> p \<and> p < j))"
      using interval_upper [OF two] by auto
    have clean: "(\<forall>p<n. f p \<or> f (p + n)) \<or> (\<forall>p<n. \<not> (f p \<and> f (p + n)))"
      using interval_clean [OF two] by auto
    show ?thesis
      using lower upper clean by blast
  qed
  then show "\<exists>i j. (\<forall>p<n. (f p \<and> f (p + n)) = (i \<le> p \<and> p < j)) \<or>
               (\<forall>p<n. (f p \<and> f (p + n)) = (\<not> (i \<le> p \<and> p < j)))"
    and "\<exists>i j. (\<forall>p<n. (f p \<or> f (p + n)) = (i \<le> p \<and> p < j)) \<or>
               (\<forall>p<n. (f p \<or> f (p + n)) = (\<not> (i \<le> p \<and> p < j)))"
    and "(\<forall>p<n. \<not> (f p \<and> f (p + n))) \<or> (\<forall>p<n. f p \<or> f (p + n))"
    by blast+
qed

lemma half_clean_halves:
  assumes "length blk = 2 * j"
  shows "take j (half_clean cx d j blk) = map (\<lambda>p. fst (cx d (blk ! p) (blk ! (p + j)))) [0..<j]"
    and "drop j (half_clean cx d j blk) = map (\<lambda>p. snd (cx d (blk ! p) (blk ! (p + j)))) [0..<j]"
proof -
  have ps: "map2 (cx d) (take j blk) (drop j blk) =
      map (\<lambda>p. cx d (blk ! p) (blk ! (p + j))) [0..<j]"
    using assms by (intro nth_equalityI) (simp_all add: add.commute)
  show "take j (half_clean cx d j blk) = map (\<lambda>p. fst (cx d (blk ! p) (blk ! (p + j)))) [0..<j]"
    using assms by (simp add: half_clean_def Let_def ps comp_def)
  show "drop j (half_clean cx d j blk) = map (\<lambda>p. snd (cx d (blk ! p) (blk ! (p + j)))) [0..<j]"
    using assms by (simp add: half_clean_def Let_def ps comp_def)
qed

lemma half_clean_bitonic01:
  assumes "bitonic01 blk" and "length blk = 2 * j"
  shows "bitonic01 (take j (half_clean key_exchange d j blk))"
    and "bitonic01 (drop j (half_clean key_exchange d j blk))"
    and "\<forall>x\<in>set (take j (half_clean key_exchange d j blk)).
         \<forall>y\<in>set (drop j (half_clean key_exchange d j blk)). if d then x \<le> y else y \<le> x"
proof -
  have pat: "\<exists>a b. (\<forall>p<2 * j. blk ! p = (a \<le> p \<and> p < b)) \<or>
      (\<forall>p<2 * j. blk ! p = (\<not> (a \<le> p \<and> p < b)))"
    using assms by (simp add: bitonic01_def)
  note halves = bitonic_halves [of j "\<lambda>p. blk ! p", OF pat]
  show "bitonic01 (take j (half_clean key_exchange d j blk))"
    using halves(1,2)
    by (cases d) (simp_all add: half_clean_halves [OF assms(2)] bitonic01_def key_exchange_bool)
  show "bitonic01 (drop j (half_clean key_exchange d j blk))"
    using halves(1,2)
    by (cases d) (simp_all add: half_clean_halves [OF assms(2)] bitonic01_def key_exchange_bool)
  show "\<forall>x\<in>set (take j (half_clean key_exchange d j blk)).
         \<forall>y\<in>set (drop j (half_clean key_exchange d j blk)). if d then x \<le> y else y \<le> x"
    using halves(3)
    by (cases d) (auto simp add: half_clean_halves [OF assms(2)] key_exchange_bool)
qed

lemma key_exchange_swaps: "key_exchange d a b = (a, b) \<or> key_exchange d a b = (b, a)"
  by (simp add: key_exchange_def)

lemma compare_exchange_swaps: "compare_exchange d a b = (a, b) \<or> compare_exchange d a b = (b, a)"
  by (simp add: compare_exchange_def)

lemma sorted_dir_append:
  "sorted_dir d (a @ b) \<longleftrightarrow>
     sorted_dir d a \<and> sorted_dir d b \<and> (\<forall>x\<in>set a. \<forall>y\<in>set b. if d then x \<le> y else y \<le> x)"
  by (cases d) (auto simp: sorted_dir_def sorted_append)

lemma sorted_dir_short: "length xs \<le> 1 \<Longrightarrow> sorted_dir d xs"
  by (cases xs) (simp_all add: sorted_dir_def)

text \<open>The bitonic merge sorts a bitonic block of truth values in its direction.\<close>

lemma merge_block_sorted01:
  "bitonic01 blk \<Longrightarrow> length blk = 2 ^ n \<Longrightarrow> sorted_dir d (merge_block key_exchange d n blk)"
proof (induction n arbitrary: blk)
  case 0
  then show ?case
    by (simp add: sorted_dir_short)
next
  case (Suc n)
  let ?h = "half_clean key_exchange d (2 ^ n) blk"
  have len: "length blk = 2 * 2 ^ n"
    using Suc.prems(2) by simp
  note hc = half_clean_bitonic01 [OF Suc.prems(1) len, of d]
  have "sorted_dir d (merge_block key_exchange d n (take (2 ^ n) ?h))"
    using hc(1) len by (intro Suc.IH) simp_all
  moreover have "sorted_dir d (merge_block key_exchange d n (drop (2 ^ n) ?h))"
    using hc(2) len by (intro Suc.IH) simp_all
  moreover have "set (merge_block key_exchange d n ys) = set ys" for ys :: "bool list"
    using mset_merge_block [of key_exchange d n ys, OF key_exchange_swaps] by (rule mset_eq_setD)
  ultimately show ?case
    using hc(3) by (simp add: merge_block_Suc [OF Suc.prems(2)] sorted_dir_append)
qed

lemma alt_sorted_alternating:
  "\<forall>b\<in>set bs. \<forall>d. sorted_dir d (f d b) \<Longrightarrow> alt_sorted d0 (alternating f d0 bs)"
  by (induction bs arbitrary: d0) simp_all

lemma alt_sorted_short: "\<forall>b\<in>set bs. length b \<le> 1 \<Longrightarrow> alt_sorted d bs"
  by (induction bs arbitrary: d) (simp_all add: sorted_dir_short)

lemma up_down_blocks:
  "0 < k \<Longrightarrow> 2 * k dvd length xs \<Longrightarrow> alt_sorted True (blocks k xs) \<Longrightarrow>
     \<forall>b\<in>set (blocks (2 * k) xs). sorted (take k b) \<and> sorted (rev (drop k b))"
proof (induction "2 * k" xs rule: blocks.induct)
  case (1 xs)
  show ?case
  proof (cases "xs = []")
    case True
    then show ?thesis by simp
  next
    case False
    with 1(2,3) have len: "2 * k \<le> length xs"
      by (auto dest: dvd_imp_le)
    then have dv: "2 * k dvd length (drop (2 * k) xs)"
      using 1(3) by (simp add: dvd_diff_nat)
    have two: "blocks (2 * k) xs = take (2 * k) xs # blocks (2 * k) (drop (2 * k) xs)"
      using 1(2) False by (simp add: blocks_Cons)
    have "xs = take k xs @ take k (drop k xs) @ drop (2 * k) xs"
      by (metis append_take_drop_id drop_drop mult_2)
    then have "blocks k xs = blocks k (take k xs @ take k (drop k xs) @ drop (2 * k) xs)"
      by simp
    also have "\<dots> = take k xs # take k (drop k xs) # blocks k (drop (2 * k) xs)"
      using 1(2) len by (simp add: blocks_append_one)
    finally have one: "blocks k xs = take k xs # take k (drop k xs) # blocks k (drop (2 * k) xs)" .
    have "alt_sorted True (blocks k (drop (2 * k) xs))"
      using 1(4) unfolding one by simp
    then have rest: "\<forall>b\<in>set (blocks (2 * k) (drop (2 * k) xs)).
        sorted (take k b) \<and> sorted (rev (drop k b))"
      using 1(1) [OF _ 1(2) dv] False 1(2) by simp
    have "sorted (take k xs)" "sorted (rev (take k (drop k xs)))"
      using 1(4) unfolding one by (simp_all add: sorted_dir_def)
    moreover have "take k (take (2 * k) xs) = take k xs" "drop k (take (2 * k) xs) = take k (drop k xs)"
      by (simp_all add: min_def drop_take)
    ultimately show ?thesis
      using rest unfolding two by simp
  qed
qed

lemma sorted01_nth:
  fixes ys :: "bool list"
  shows "sorted ys \<Longrightarrow> \<exists>i. \<forall>p<length ys. ys ! p = (i \<le> p)"
proof (induction ys)
  case Nil
  show ?case by simp
next
  case (Cons y ys)
  then obtain i where i: "\<forall>p<length ys. ys ! p = (i \<le> p)"
    by auto
  show ?case
  proof (cases y)
    case True
    then have "\<forall>p<length (y # ys). (y # ys) ! p = (0 \<le> p)"
      using Cons.prems by (auto simp: nth_Cons split: nat.splits)
    then show ?thesis by blast
  next
    case False
    then have "\<forall>p<length (y # ys). (y # ys) ! p = (Suc i \<le> p)"
      using i by (auto simp: nth_Cons split: nat.splits)
    then show ?thesis by blast
  qed
qed

lemma up_down_bitonic01:
  fixes b :: "bool list"
  assumes "length b = 2 * k" and "sorted (take k b)" and "sorted (rev (drop k b))"
  shows "bitonic01 b"
proof -
  from sorted01_nth [OF assms(2)] obtain i where i: "\<forall>p<k. b ! p = (i \<le> p)"
    using assms(1) by auto
  from sorted01_nth [OF assms(3)] obtain j where "\<forall>p<k. rev (drop k b) ! p = (j \<le> p)"
    using assms(1) by auto
  then have j: "\<forall>p<k. b ! (k + (k - Suc p)) = (j \<le> p)"
    using assms(1) by (simp add: rev_nth)
  have down: "b ! p = (p < 2 * k - j)" if "k \<le> p" "p < 2 * k" for p
  proof -
    have "2 * k - Suc p < k" "k + (k - Suc (2 * k - Suc p)) = p"
      using that by simp_all
    with j have "b ! p = (j \<le> 2 * k - Suc p)"
      by metis
    then show ?thesis
      using that by auto
  qed
  have "\<forall>p<length b. b ! p = (min i k \<le> p \<and> p < 2 * k - j)" if "j < k"
  proof (intro allI impI)
    fix p
    assume "p < length b"
    then show "b ! p = (min i k \<le> p \<and> p < 2 * k - j)"
      using i down [of p] assms(1) that by (cases "p < k") auto
  qed
  moreover have "\<forall>p<length b. b ! p = (i \<le> p \<and> p < k)" if "\<not> j < k"
  proof (intro allI impI)
    fix p
    assume "p < length b"
    then show "b ! p = (i \<le> p \<and> p < k)"
      using i down [of p] assms(1) that by (cases "p < k") auto
  qed
  ultimately show ?thesis
    unfolding bitonic01_def by blast
qed

section \<open>The network sorts\<close>

lemma stage_step01:
  fixes xs :: "bool list"
  assumes "length xs = 2 ^ m" and "s < m" and "alt_sorted True (blocks (2 ^ s) xs)"
  shows "alt_sorted True (blocks (2 ^ (s + 1)) (major_stage key_exchange s xs))"
proof -
  let ?bs = "blocks (2 ^ (s + 1)) xs"
  let ?M = "\<lambda>d. merge_block key_exchange d (s + 1)"
  have "(2::nat) ^ (s + 1) dvd 2 ^ m"
    using assms(2) by (intro le_imp_power_dvd) simp
  then have dv: "2 ^ (s + 1) dvd length xs"
    using assms(1) by simp
  have len: "\<forall>b\<in>set ?bs. length b = 2 ^ (s + 1)"
    using dv by (auto intro: length_in_blocks)
  have "major_stage key_exchange s (concat ?bs) = concat (alternating ?M True ?bs)"
    using len by (rule major_stage_blocks)
  then have stage: "major_stage key_exchange s xs = concat (alternating ?M True ?bs)"
    by (simp add: concat_blocks)
  have "\<forall>b\<in>set (alternating ?M True ?bs). length b = 2 ^ (s + 1)"
    using len by (intro length_in_alternating) simp_all
  then have blocks': "blocks (2 ^ (s + 1)) (major_stage key_exchange s xs) = alternating ?M True ?bs"
    unfolding stage by (intro blocks_concat) simp_all
  have "\<forall>b\<in>set (blocks (2 * 2 ^ s) xs). sorted (take (2 ^ s) b) \<and> sorted (rev (drop (2 ^ s) b))"
    using dv assms(3) by (intro up_down_blocks) simp_all
  then have "\<forall>b\<in>set ?bs. bitonic01 b"
    using len by (auto intro!: up_down_bitonic01 [where k = "2 ^ s"])
  then have "\<forall>b\<in>set ?bs. \<forall>d. sorted_dir d (?M d b)"
    using len by (auto intro!: merge_block_sorted01)
  then show ?thesis
    unfolding blocks' by (rule alt_sorted_alternating)
qed

lemma stages01:
  fixes xs :: "bool list"
  assumes "length xs = 2 ^ m"
  shows "s \<le> m \<Longrightarrow>
     alt_sorted True (blocks (2 ^ s) (foldl (\<lambda>ys s. major_stage key_exchange s ys) xs [0..<s]))"
proof (induction s)
  case 0
  have "\<forall>b\<in>set (blocks 1 xs). length b \<le> 1"
    using length_in_blocks [of 1 xs] by auto
  then show ?case
    by (simp add: alt_sorted_short)
next
  case (Suc s)
  let ?ys = "foldl (\<lambda>ys s. major_stage key_exchange s ys) xs [0..<s]"
  have "length ?ys = 2 ^ m"
    using assms by (simp add: length_foldl_same)
  moreover have "s < m" "alt_sorted True (blocks (2 ^ s) ?ys)"
    using Suc by simp_all
  ultimately have "alt_sorted True (blocks (2 ^ (s + 1)) (major_stage key_exchange s ?ys))"
    by (rule stage_step01)
  then show ?case by simp
qed

lemma network_sorted01:
  fixes xs :: "bool list"
  assumes "length xs = 2 ^ m"
  shows "sorted (bitonic_network key_exchange xs)"
proof -
  let ?ys = "foldl (\<lambda>ys s. major_stage key_exchange s ys) xs [0..<m]"
  have "length ?ys = 2 ^ m"
    using assms by (simp add: length_foldl_same)
  then have "blocks (2 ^ m) ?ys = [?ys]"
    by (intro blocks_single) simp_all
  moreover have "alt_sorted True (blocks (2 ^ m) ?ys)"
    using stages01 [OF assms, of m] by simp
  ultimately have "sorted ?ys"
    by (simp add: sorted_dir_def)
  then show ?thesis
    by (simp add: bitonic_network_def assms ceil_log2_power)
qed

text \<open>
  The zero-one principle: a threshold commutes with the compare-exchange of keys, so the
  network sorts keys of any linear order when it sorts truth values.
\<close>

lemma key_exchange_threshold:
  fixes a b :: "'k::linorder"
  shows "map_prod (\<lambda>x. c \<le> x) (\<lambda>x. c \<le> x) (key_exchange d a b) =
     key_exchange d (c \<le> a) (c \<le> b)"
  by (cases d) (auto simp: key_exchange_def)

lemma network_sorted:
  fixes xs :: "('k::linorder) list"
  assumes "length xs = 2 ^ m"
  shows "sorted (bitonic_network key_exchange xs)"
proof -
  let ?out = "bitonic_network key_exchange xs"
  have "?out ! i \<le> ?out ! j" if "i \<le> j" "j < length ?out" for i j
  proof -
    let ?g = "\<lambda>x. ?out ! i \<le> x"
    have "map ?g ?out = bitonic_network key_exchange (map ?g xs)"
      by (rule map_bitonic_network) (rule key_exchange_threshold)
    moreover have "sorted (bitonic_network key_exchange (map ?g xs))"
      using assms by (intro network_sorted01 [where m = m]) simp
    ultimately have "sorted (map ?g ?out)"
      by simp
    then have "map ?g ?out ! i \<le> map ?g ?out ! j"
      using that by (intro sorted_nth_mono) simp_all
    then show ?thesis
      using that by simp
  qed
  then show ?thesis
    by (simp add: sorted_iff_nth_mono)
qed

lemma compare_exchange_keys:
  "map_prod fst fst (compare_exchange d a b) = key_exchange d (fst a) (fst b)"
  by (simp add: compare_exchange_def key_exchange_def)

text \<open>The permutation \<open>argsort\<close> returns, for keys of a power-of-two length.\<close>

lemma argsort_permutes: "mset (argsort keys) = mset [0..<length keys]"
proof -
  have "mset (bitonic_network compare_exchange (zip keys [0..<length keys])) =
      mset (zip keys [0..<length keys])"
    by (rule mset_bitonic_network) (rule compare_exchange_swaps)
  then have "mset (map snd (bitonic_network compare_exchange (zip keys [0..<length keys]))) =
      mset (map snd (zip keys [0..<length keys]))"
    by (simp only: mset_map)
  moreover have "map snd (zip keys [0..<length keys]) = [0..<length keys]"
    by (rule map_snd_zip) simp
  ultimately show ?thesis
    by (simp only: argsort_def)
qed

lemma argsort_keys:
  "map (\<lambda>p. keys ! p) (argsort keys) = bitonic_network key_exchange keys"
proof -
  let ?zs = "zip keys [0..<length keys]"
  let ?out = "bitonic_network compare_exchange ?zs"
  have "set ?out = set ?zs"
    using mset_bitonic_network [of compare_exchange ?zs, OF compare_exchange_swaps]
    by (rule mset_eq_setD)
  then have "\<forall>e\<in>set ?out. keys ! snd e = fst e"
    by (auto simp: set_zip)
  then have "map (\<lambda>p. keys ! p) (argsort keys) = map fst ?out"
    by (simp add: argsort_def)
  also have "\<dots> = bitonic_network key_exchange (map fst ?zs)"
    by (rule map_bitonic_network) (rule compare_exchange_keys)
  finally show ?thesis
    by simp
qed

lemma argsort_sorted:
  assumes "length keys = 2 ^ m"
  shows "sorted (map (\<lambda>p. keys ! p) (argsort keys))"
  unfolding argsort_keys using assms by (rule network_sorted)

section \<open>Sort correctness\<close>

text \<open>
  Claim C3. For every depth array whose length \<open>P\<close> is a power of two, the permutation
  array the engine produces has \<open>P\<close> entries, is a bijection on \<open>[0, P)\<close> (its entries
  are distinct and are exactly the indices below \<open>P\<close>), and orders the depths:
  \<open>depth[permutation[i]] \<le> depth[permutation[i + 1]]\<close> for every \<open>i\<close> with \<open>i + 1 < P\<close>.
\<close>

theorem argsort_sorts:
  assumes "length depth = 2 ^ m"
  shows "length (argsort depth) = 2 ^ m \<and> distinct (argsort depth) \<and>
         set (argsort depth) = {0..<2 ^ m} \<and>
         (\<forall>i. i + 1 < 2 ^ m \<longrightarrow>
              depth ! (argsort depth ! i) \<le> depth ! (argsort depth ! (i + 1)))"
proof -
  have perm: "mset (argsort depth) = mset [0..<2 ^ m]"
    using argsort_permutes [of depth] assms by simp
  have "distinct (argsort depth)"
    using perm by (metis distinct_upt mset_eq_imp_distinct_iff)
  moreover have "set (argsort depth) = {0..<2 ^ m}"
    using mset_eq_setD [OF perm] by simp
  moreover have "depth ! (argsort depth ! i) \<le> depth ! (argsort depth ! (i + 1))"
    if "i + 1 < 2 ^ m" for i
  proof -
    have "map (\<lambda>p. depth ! p) (argsort depth) ! i \<le> map (\<lambda>p. depth ! p) (argsort depth) ! (i + 1)"
      using that assms by (intro sorted_nth_mono argsort_sorted [OF assms]) simp_all
    then show ?thesis
      using that assms by simp
  qed
  ultimately show ?thesis
    using assms by simp
qed

text \<open>The claim at the depths \<open>5, 1, 3\<close> and one sentinel (\<open>P = 4\<close>).\<close>

theorem argsort_sorts_witness:
  "length (argsort [5, 1, 3, sentinel]) = 4 \<and> distinct (argsort [5, 1, 3, sentinel]) \<and>
   set (argsort [5, 1, 3, sentinel]) = {0..<4} \<and>
   [5, 1, 3, sentinel] ! (argsort [5, 1, 3, sentinel] ! 0) \<le>
     [5, 1, 3, sentinel] ! (argsort [5, 1, 3, sentinel] ! 1)"
proof -
  have len: "length [5, 1, 3, sentinel] = 2 ^ 2"
    by simp
  note sorts = argsort_sorts [OF len]
  from sorts have "\<forall>i. i + 1 < 2 ^ 2 \<longrightarrow>
      [5, 1, 3, sentinel] ! (argsort [5, 1, 3, sentinel] ! i) \<le>
      [5, 1, 3, sentinel] ! (argsort [5, 1, 3, sentinel] ! (i + 1))"
    by blast
  then have "(0::nat) + 1 < 2 ^ 2 \<longrightarrow>
      [5, 1, 3, sentinel] ! (argsort [5, 1, 3, sentinel] ! 0) \<le>
      [5, 1, 3, sentinel] ! (argsort [5, 1, 3, sentinel] ! (0 + 1))"
    by (rule spec)
  then have "[5, 1, 3, sentinel] ! (argsort [5, 1, 3, sentinel] ! 0) \<le>
      [5, 1, 3, sentinel] ! (argsort [5, 1, 3, sentinel] ! 1)"
    by simp
  moreover from sorts have "length (argsort [5, 1, 3, sentinel]) = 4"
    "distinct (argsort [5, 1, 3, sentinel])" "set (argsort [5, 1, 3, sentinel]) = {0..<4}"
    by simp_all
  ultimately show ?thesis
    by blast
qed

section \<open>Sentinel containment\<close>

text \<open>
  Sentinel containment where it holds: when every real depth is below the padding value
  and all padding slots hold it, the ranks below \<open>N\<close> go to real gaussians.
\<close>

lemma padding_sorts_last:
  assumes "length d = 2 ^ m" and "n \<le> 2 ^ m"
    and "\<forall>i<n. d ! i < s" and "\<forall>i. n \<le> i \<and> i < 2 ^ m \<longrightarrow> d ! i = s"
    and "k < n"
  shows "argsort d ! k < n"
proof (rule ccontr)
  assume "\<not> argsort d ! k < n"
  then have high: "n \<le> argsort d ! k"
    by simp
  have perm: "mset (argsort d) = mset [0..<2 ^ m]"
    using argsort_permutes [of d] assms(1) by simp
  have len: "length (argsort d) = 2 ^ m"
    using assms(1) by simp
  have dist: "distinct (argsort d)"
    using perm by (metis distinct_upt mset_eq_imp_distinct_iff)
  have range: "set (argsort d) = {0..<2 ^ m}"
    using mset_eq_setD [OF perm] by simp
  have below: "argsort d ! j < 2 ^ m" if "j < 2 ^ m" for j
    using range nth_mem [of j "argsort d"] that len by auto
  have "d ! (argsort d ! k) = s"
    using assms(4) high below [of k] assms(2,5) by simp
  have up: "n \<le> argsort d ! j" if "k \<le> j" "j < 2 ^ m" for j
  proof (rule ccontr)
    assume "\<not> n \<le> argsort d ! j"
    then have "d ! (argsort d ! j) < s"
      using assms(3) by simp
    moreover have "map (\<lambda>p. d ! p) (argsort d) ! k \<le> map (\<lambda>p. d ! p) (argsort d) ! j"
      using that len by (intro sorted_nth_mono argsort_sorted [OF assms(1)]) simp_all
    then have "d ! (argsort d ! k) \<le> d ! (argsort d ! j)"
      using that len assms(2,5) by simp
    ultimately show False
      using \<open>d ! (argsort d ! k) = s\<close> by simp
  qed
  have "(\<lambda>j. argsort d ! j) ` {k..<2 ^ m} \<subseteq> {n..<2 ^ m}"
    using up below by auto
  moreover have "inj_on (\<lambda>j. argsort d ! j) {k..<2 ^ m}"
    using dist len by (auto simp: inj_on_def nth_eq_iff_index_eq)
  ultimately have "card {k..<(2::nat) ^ m} \<le> card {n..<(2::nat) ^ m}"
    by (intro card_inj_on_le [where f = "\<lambda>j. argsort d ! j"]) simp_all
  then show False
    using assms(2,5) by simp
qed

text \<open>
  The permutation buffer after a call of \<open>sort\<close> whose work completes: the engine is
  called on the depth buffer of \<open>nPadded\<close> entries, a power of two when there is a gaussian.
\<close>

lemma sort_permutation:
  assumes "well_formed this" and "0 < nElements this"
  shows "mset (u32_data (gpu (fst (DepthSorter_sort no_fault m this))) (indicesBuffer (sorter this))) =
       mset [0..<nPadded this]"
    and "sorted (map (\<lambda>p. f32_data (gpu (fst (DepthSorter_sort no_fault m this))) (depthBuffer this) ! p)
       (u32_data (gpu (fst (DepthSorter_sort no_fault m this))) (indicesBuffer (sorter this))))"
proof -
  let ?d = "f32_data (gpu (fst (DepthSorter_sort no_fault m this))) (depthBuffer this)"
  have "holds_f32 (gpu this) (depthBuffer this) (nPadded this)"
    using assms(1) unfolding well_formed_def by blast
  then have "length (f32_data (gpu this) (depthBuffer this)) = nPadded this"
    by (rule f32_length)
  then have len: "length ?d = nPadded this"
    unfolding sort_depth_buffer [OF assms(1)] no_fault_simps by simp
  have "nPadded this = 2 ^ ceil_log2 (nElements this)"
    using assms by (simp add: well_formed_def nextPowerOfTwo_pos)
  then have pow: "length ?d = 2 ^ ceil_log2 (nElements this)"
    using len by simp
  have ix: "u32_data (gpu (fst (DepthSorter_sort no_fault m this))) (indicesBuffer (sorter this)) = argsort ?d"
    unfolding sort_indices_buffer [OF assms(1)] no_fault_simps by simp
  show "mset (u32_data (gpu (fst (DepthSorter_sort no_fault m this))) (indicesBuffer (sorter this))) =
      mset [0..<nPadded this]"
    unfolding ix using argsort_permutes [of ?d] len by simp
  show "sorted (map (\<lambda>p. ?d ! p)
      (u32_data (gpu (fst (DepthSorter_sort no_fault m this))) (indicesBuffer (sorter this))))"
    unfolding ix using pow by (rule argsort_sorted)
qed

lemma index_buffer_in_range:
  assumes "well_formed this" and "0 < nElements this"
    and "nPadded this \<le> 1024 * ceil_div (nElements this) 1024"
    and "\<forall>i<nElements this. depth_of (vec3_data (gpu this) (positionsBuffer this)) m i < sentinel"
  shows "\<forall>e\<in>set (u32_data (gpu (fst (DepthSorter_sort no_fault m this))) (indexBuffer this)).
     e < 6 * nElements this"
proof -
  let ?n = "nElements this"
  let ?d = "f32_data (gpu (fst (DepthSorter_sort no_fault m this))) (depthBuffer this)"
  let ?ix = "u32_data (gpu (fst (DepthSorter_sort no_fault m this))) (indicesBuffer (sorter this))"
  let ?ib = "u32_data (gpu (fst (DepthSorter_sort no_fault m this))) (indexBuffer this)"
  have held: "holds_f32 (gpu this) (depthBuffer this) (nPadded this)"
      "holds_u32 (gpu this) (indexBuffer this) (?n * 6)"
    using assms(1) unfolding well_formed_def by blast+
  have pad: "nPadded this = 2 ^ ceil_log2 ?n"
    using assms(1,2) by (simp add: well_formed_def nextPowerOfTwo_pos)
  have len: "length ?d = 2 ^ ceil_log2 ?n"
    unfolding sort_depth_buffer [OF assms(1)] no_fault_simps
    using f32_length [OF held(1)] pad by simp
  have n_le: "?n \<le> 2 ^ ceil_log2 ?n"
    by (rule ceil_log2_upper)
  have real: "\<forall>i<?n. ?d ! i < sentinel"
    using assms(4) n_le pad by (simp add: projection_stage_slots [OF assms(1)])
  have padding: "\<forall>i. ?n \<le> i \<and> i < 2 ^ ceil_log2 ?n \<longrightarrow> ?d ! i = sentinel"
    using assms(3) pad by (simp add: projection_stage_slots [OF assms(1)])
  have ix: "?ix = argsort ?d"
    unfolding sort_indices_buffer [OF assms(1)] no_fault_simps by simp
  have rank: "?ix ! k < ?n" if "k < ?n" for k
    unfolding ix using len n_le real padding that by (rule padding_sorts_last)
  have ib: "?ib = dispatchWorkgroups 1024 (copyToIndexBuffer_main (ceil_div ?n 1024) ?n ?ix)
      (u32_data (gpu this) (indexBuffer this))"
    unfolding sort_index_buffer [OF assms(1)] no_fault_simps by simp
  have cover: "min (1024 * ceil_div ?n 1024) ?n = ?n"
    using ceil_div_covers [of 1024 ?n] by simp
  have ixlen: "length ?ix = 2 ^ ceil_log2 ?n"
    unfolding ix using len by simp
  show ?thesis
  proof
    fix e
    assume "e \<in> set ?ib"
    then obtain p where p: "p < length ?ib" "e = ?ib ! p"
      by (auto simp: in_set_conv_nth)
    have plen: "p < ?n * 6"
      using p(1) u32_length [OF held(2)] unfolding ib by simp
    then have q: "p div 6 < ?n"
      by (simp add: less_mult_imp_div_less)
    then have "?ix ! (p div 6) < ?n"
      by (rule rank)
    moreover have "e = ?ix ! (p div 6) * 6 + p mod 6"
      using p plen q n_le ixlen u32_length [OF held(2)] unfolding ib
      by (simp add: copy_dispatch cover load_def)
    moreover have "p mod 6 < 6"
      by simp
    ultimately show "e < 6 * ?n"
      by linarith
  qed
qed

section \<open>The whole pipeline on three gaussians\<close>

lemma depth_of_identity: "depth_of vs identity_mat4x4 i = (case load vs i (0, 0, 0) of (x, y, z) \<Rightarrow> z)"
  by (simp add: depth_of_def identity_mat4x4_def mat4x4_mul_def vec4_of_def vec4_scale_def
      vec4_add_def vec4_z_def Let_def split: prod.splits)

lemma small_counts: "nextPowerOfTwo 3 = 4" "ceil_div 3 1024 = 1"
  by (simp_all add: nextPowerOfTwo_def Math_ceil_log2_def Math_pow2_def ceil_log2.simps ceil_div_def)

lemma upt_4: "[0..<4] = [0, 1, 2, 3]"
  by (simp add: upt_rec)

lemma upt_18: "[0..<18] = [0, 1, 2, 3, 4, 5, 6, 7, 8, 9, 10, 11, 12, 13, 14, 15, 16, 17]"
  by (simp add: upt_rec)

text \<open>The spec's scenario: depths 5, 1, 3 and one padding slot.\<close>

lemma three_gaussians_sorted:
  "u32_data (gpu (fst (DepthSorter_sort no_fault identity_mat4x4 (DepthSorter_new fresh_device three_gaussians))))
     (indexBuffer (DepthSorter_new fresh_device three_gaussians)) =
   [6, 7, 8, 9, 10, 11, 12, 13, 14, 15, 16, 17, 0, 1, 2, 3, 4, 5]"
proof -
  let ?srt = "DepthSorter_new fresh_device three_gaussians"
  have wf: "well_formed ?srt"
    by (rule DepthSorter_new_well_formed)
  have d: "f32_data (gpu (fst (DepthSorter_sort no_fault identity_mat4x4 ?srt))) (depthBuffer ?srt) =
      [5, 1, 3, sentinel]"
    unfolding sort_depth_buffer [OF wf] no_fault_simps DepthSorter_new_data
    by (simp add: three_gaussians_def small_counts computeDepth_dispatch upt_4 depth_of_identity load_def)
  have "argsort [5, 1, 3, sentinel] = [1, 2, 0, 3]"
    unfolding sentinel_def by code_simp
  then have ix: "u32_data (gpu (fst (DepthSorter_sort no_fault identity_mat4x4 ?srt)))
      (indicesBuffer (sorter ?srt)) = [1, 2, 0, 3]"
    unfolding sort_indices_buffer [OF wf] no_fault_simps d by simp
  show ?thesis
    unfolding sort_index_buffer [OF wf] no_fault_simps ix DepthSorter_new_data
    by (simp add: three_gaussians_def small_counts copy_dispatch upt_18 load_def)
qed

text \<open>
  Claim C5 at three gaussians of which the first has depth \<open>2000000\<close>, beyond the
  sentinel \<open>1000000\<close>: the padding slot \<open>3\<close> sorts to rank \<open>2\<close>, before that gaussian, and
  the copy shader expands it. The last six entries of the index buffer are \<open>18, ..., 23\<close>,
  none of them below \<open>6 * N = 18\<close>.
\<close>

theorem far_gaussian_behind_sentinel:
  "u32_data (gpu (fst (DepthSorter_sort no_fault identity_mat4x4 (DepthSorter_new fresh_device far_gaussians))))
     (indexBuffer (DepthSorter_new fresh_device far_gaussians)) =
   [6, 7, 8, 9, 10, 11, 12, 13, 14, 15, 16, 17, 18, 19, 20, 21, 22, 23] \<and>
   nElements (DepthSorter_new fresh_device far_gaussians) = 3"
proof -
  let ?srt = "DepthSorter_new fresh_device far_gaussians"
  have wf: "well_formed ?srt"
    by (rule DepthSorter_new_well_formed)
  have d: "f32_data (gpu (fst (DepthSorter_sort no_fault identity_mat4x4 ?srt))) (depthBuffer ?srt) =
      [2000000, 1, 3, sentinel]"
    unfolding sort_depth_buffer [OF wf] no_fault_simps DepthSorter_new_data
    by (simp add: far_gaussians_def small_counts computeDepth_dispatch upt_4 depth_of_identity load_def)
  have "argsort [2000000, 1, 3, sentinel] = [1, 2, 3, 0]"
    unfolding sentinel_def by code_simp
  then have ix: "u32_data (gpu (fst (DepthSorter_sort no_fault identity_mat4x4 ?srt)))
      (indicesBuffer (sorter ?srt)) = [1, 2, 3, 0]"
    unfolding sort_indices_buffer [OF wf] no_fault_simps d by simp
  show ?thesis
    unfolding sort_index_buffer [OF wf] no_fault_simps ix DepthSorter_new_data
    by (simp add: far_gaussians_def small_counts copy_dispatch upt_18 load_def)
qed

section \<open>Calling sort twice, stores past the end redirected\<close>

text \<open>
  With \<open>N\<close> a power of two up to \<open>512\<close> the padded length is \<open>N\<close> and \<open>itemsPerThread\<close> is
  \<open>1\<close>: invocation \<open>g\<close> of the depth shader has the one store \<open>depths[g]\<close>, and the
  invocations \<open>N, ..., 1023\<close> store the sentinel past the end of the depth buffer. Where
  the device clamps the index, all of them land on slot \<open>N - 1\<close>, the slot of the last
  gaussian, and what the slot holds after the dispatch is decided by the order of the
  invocations.
\<close>

lemma length_foldl_store_clamped [simp]: "length (foldl store_clamped buf ss) = length buf"
  by (induction ss arbitrary: buf) auto

lemma length_dispatch_clamped [simp]: "length (dispatch_clamped order main buf) = length buf"
  by (simp add: dispatch_clamped_def)

text \<open>One item per invocation: the stores of a dispatch follow the order of the invocations.\<close>

lemma computeDepth_main_one:
  "computeDepth_main 1 n vs m g = [(g, if n \<le> g then sentinel else depth_of vs m g)]"
  by (simp add: computeDepth_main_def computeDepth_loop_eq)

lemma concat_singletons: "concat (map (\<lambda>g. [h g]) order) = map h order"
  by (induction order) simp_all

lemma clamped_ascending_in_range:
  "m \<le> length buf \<Longrightarrow>
     foldl store_clamped buf (map (\<lambda>p. (p, f p)) [0..<m]) =
     map (\<lambda>p. if p < m then f p else buf ! p) [0..<length buf]"
proof (induction m)
  case 0
  show ?case by (simp add: map_nth)
next
  case (Suc m)
  then have m: "m < length buf" by simp
  then have "min m (length buf - 1) = m" by simp
  then have "foldl store_clamped buf (map (\<lambda>p. (p, f p)) [0..<Suc m]) =
      (map (\<lambda>p. if p < m then f p else buf ! p) [0..<length buf])[m := f m]"
    using Suc by simp
  also have "\<dots> = map (\<lambda>p. if p < Suc m then f p else buf ! p) [0..<length buf]"
    using m by (intro nth_equalityI) (auto simp: nth_list_update less_Suc_eq)
  finally show ?case .
qed

lemma clamped_ascending:
  assumes "0 < length buf"
  shows "length buf \<le> m \<Longrightarrow>
     foldl store_clamped buf (map (\<lambda>p. (p, f p)) [0..<m]) =
     (map f [0..<length buf])[length buf - 1 := f (m - 1)]"
proof (induction m)
  case 0
  with assms show ?case by simp
next
  case (Suc m)
  show ?case
  proof (cases "length buf \<le> m")
    case True
    then have "min m (length buf - 1) = length buf - 1" by simp
    then show ?thesis
      using Suc.IH [OF True] by simp
  next
    case False
    with Suc.prems have eq: "Suc m = length buf" by simp
    have "foldl store_clamped buf (map (\<lambda>p. (p, f p)) [0..<length buf]) =
        map (\<lambda>p. if p < length buf then f p else buf ! p) [0..<length buf]"
      by (rule clamped_ascending_in_range) simp
    also have "\<dots> = map f [0..<length buf]"
      by simp
    also have "\<dots> = (map f [0..<length buf])[length buf - 1 := f (length buf - 1)]"
      using assms by (intro nth_equalityI) (auto simp: nth_list_update)
    finally show ?thesis
      unfolding eq [symmetric] by simp
  qed
qed

lemma clamped_descending_in_range:
  "m \<le> length buf \<Longrightarrow>
     foldl store_clamped buf (map (\<lambda>p. (p, f p)) (rev [0..<m])) =
     map (\<lambda>p. if p < m then f p else buf ! p) [0..<length buf]"
proof (induction m arbitrary: buf)
  case 0
  show ?case by (simp add: map_nth)
next
  case (Suc m)
  then have m: "m < length buf" by simp
  then have "min m (length buf - 1) = m" by simp
  then have "foldl store_clamped buf (map (\<lambda>p. (p, f p)) (rev [0..<Suc m])) =
      foldl store_clamped (buf[m := f m]) (map (\<lambda>p. (p, f p)) (rev [0..<m]))"
    by simp
  also have "\<dots> = map (\<lambda>p. if p < m then f p else buf[m := f m] ! p) [0..<length buf]"
    using Suc.IH [of "buf[m := f m]"] m by simp
  also have "\<dots> = map (\<lambda>p. if p < Suc m then f p else buf ! p) [0..<length buf]"
    using m by (intro nth_equalityI) (auto simp: nth_list_update less_Suc_eq)
  finally show ?case .
qed

lemma clamped_descending:
  "0 < length buf \<Longrightarrow> length buf \<le> m \<Longrightarrow>
     foldl store_clamped buf (map (\<lambda>p. (p, f p)) (rev [0..<m])) = map f [0..<length buf]"
proof (induction m arbitrary: buf)
  case 0
  then show ?case by simp
next
  case (Suc m)
  show ?case
  proof (cases "length buf \<le> m")
    case True
    have "foldl store_clamped buf (map (\<lambda>p. (p, f p)) (rev [0..<Suc m])) =
        foldl store_clamped (store_clamped buf (m, f m)) (map (\<lambda>p. (p, f p)) (rev [0..<m]))"
      by simp
    also have "\<dots> = map f [0..<length (store_clamped buf (m, f m))]"
      using Suc.prems True by (intro Suc.IH) simp_all
    finally show ?thesis by simp
  next
    case False
    with Suc.prems have "Suc m = length buf" by simp
    then show ?thesis
      using clamped_descending_in_range [of "Suc m" buf f] by simp
  qed
qed

text \<open>The copy shader with one item per invocation: only the invocations below \<open>N\<close> store.\<close>

lemma copy_main_one:
  "copyToIndexBuffer_main 1 n ix g = (if g < n then copy_quad ix g else [])"
  by (simp add: copyToIndexBuffer_main_def copy_loop_eq)

lemma concat_map_if:
  "concat (map (\<lambda>g. if P g then f g else []) xs) = concat (map f (filter P xs))"
  by (induction xs) simp_all

lemma filter_less_upt: "n \<le> m \<Longrightarrow> filter (\<lambda>g. g < n) [0..<m] = [0..<n]"
proof (induction m)
  case 0
  then show ?case by simp
next
  case (Suc m)
  show ?case
  proof (cases "n = Suc m")
    case True
    then show ?thesis by (simp del: upt_Suc)
  next
    case False
    with Suc show ?thesis by simp
  qed
qed

lemma copy_clamped_stores:
  "concat (map (copyToIndexBuffer_main 1 4 ix) [0..<1024]) =
     concat (map (copy_quad ix) [0, 1, 2, 3])"
  "concat (map (copyToIndexBuffer_main 1 4 ix) (rev [0..<1024])) =
     concat (map (copy_quad ix) [3, 2, 1, 0])"
proof -
  have f: "filter (\<lambda>g. g < 4) [0..<1024] = [0..<4]"
    by (rule filter_less_upt) simp
  have main: "copyToIndexBuffer_main 1 4 ix = (\<lambda>g. if g < 4 then copy_quad ix g else [])"
    by (rule ext) (rule copy_main_one)
  show "concat (map (copyToIndexBuffer_main 1 4 ix) [0..<1024]) =
      concat (map (copy_quad ix) [0, 1, 2, 3])"
    unfolding main concat_map_if f upt_4 by (rule refl)
  show "concat (map (copyToIndexBuffer_main 1 4 ix) (rev [0..<1024])) =
      concat (map (copy_quad ix) [3, 2, 1, 0])"
    unfolding main concat_map_if rev_filter [symmetric] f upt_4 by simp
qed

lemma upt_6: "[0..<6] = [0, 1, 2, 3, 4, 5]"
  by (simp add: upt_rec)

lemma list_update_numeral: "(x # xs)[numeral k := v] = x # xs[pred_numeral k := v]"
  by (simp add: numeral_eq_Suc)

lemma replicate_24:
  "replicate 24 (0::nat) =
     [0, 0, 0, 0, 0, 0, 0, 0, 0, 0, 0, 0, 0, 0, 0, 0, 0, 0, 0, 0, 0, 0, 0, 0]"
  by (simp add: numeral_eq_Suc)

text \<open>
  The copy stage of the two calls below: its stores are all inside the index buffer, so the
  clamping and the order leave no trace in it.
\<close>

lemma clamped_copies:
  "dispatch_clamped [0..<1024] (copyToIndexBuffer_main 1 4 [1, 2, 0, 3]) (replicate 24 0) =
     [6, 7, 8, 9, 10, 11, 12, 13, 14, 15, 16, 17, 0, 1, 2, 3, 4, 5, 18, 19, 20, 21, 22, 23]"
  "dispatch_clamped (rev [0..<1024]) (copyToIndexBuffer_main 1 4 [1, 3, 2, 0])
     [6, 7, 8, 9, 10, 11, 12, 13, 14, 15, 16, 17, 0, 1, 2, 3, 4, 5, 18, 19, 20, 21, 22, 23] =
     [6, 7, 8, 9, 10, 11, 18, 19, 20, 21, 22, 23, 12, 13, 14, 15, 16, 17, 0, 1, 2, 3, 4, 5]"
  unfolding dispatch_clamped_def copy_clamped_stores replicate_24
  by (simp_all add: copy_quad_def load_def upt_6 list_update_numeral)

text \<open>
  The depth stage on four gaussians of depths 5, 1, 3, 2. In ascending order of the
  invocations the last store to slot \<open>3\<close> is a sentinel, in descending order it is the
  depth of gaussian \<open>3\<close>.
\<close>

lemma clamped_depths:
  assumes "length buf = 4"
  shows "dispatch_clamped [0..<1024]
       (computeDepth_main 1 4 [(0, 0, 5), (0, 0, 1), (0, 0, 3), (0, 0, 2)] identity_mat4x4) buf =
     [5, 1, 3, sentinel]"
    and "dispatch_clamped (rev [0..<1024])
       (computeDepth_main 1 4 [(0, 0, 5), (0, 0, 1), (0, 0, 3), (0, 0, 2)] identity_mat4x4) buf =
     [5, 1, 3, 2]"
proof -
  have pos: "0 < length buf" "length buf \<le> 1024"
    using assms by simp_all
  show "dispatch_clamped [0..<1024]
       (computeDepth_main 1 4 [(0, 0, 5), (0, 0, 1), (0, 0, 3), (0, 0, 2)] identity_mat4x4) buf =
     [5, 1, 3, sentinel]"
    unfolding dispatch_clamped_def computeDepth_main_one concat_singletons
      clamped_ascending [OF pos]
    using assms by (simp add: upt_4 depth_of_identity load_def)
  show "dispatch_clamped (rev [0..<1024])
       (computeDepth_main 1 4 [(0, 0, 5), (0, 0, 1), (0, 0, 3), (0, 0, 2)] identity_mat4x4) buf =
     [5, 1, 3, 2]"
    unfolding dispatch_clamped_def computeDepth_main_one concat_singletons
      clamped_descending [OF pos]
    using assms by (simp add: upt_4 depth_of_identity load_def)
qed

text \<open>One call of \<open>sort\<close> on the clamping device, buffer by buffer.\<close>

lemma sort_clamped_object:
  "fst (DepthSorter_sort_clamped order m this) =
     this\<lparr>gpu := gpu (fst (DepthSorter_sort_clamped order m this))\<rparr>"
  by (simp add: DepthSorter_sort_clamped_def Let_def)

lemma sort_clamped_buffers:
  assumes "well_formed this"
  shows "gpu (fst (DepthSorter_sort_clamped order m this)) =
    (let d = dispatch_clamped order
               (computeDepth_main (ceil_div (nElements this) 1024) (nElements this)
                  (vec3_data (gpu this) (positionsBuffer this)) m)
               (f32_data (gpu this) (depthBuffer this));
         ix = argsort d;
         ib = dispatch_clamped order
                (copyToIndexBuffer_main (ceil_div (nElements this) 1024) (nElements this) ix)
                (u32_data (gpu this) (indexBuffer this))
     in writeBuffer (writeBuffer (writeBuffer (writeBuffer (gpu this)
          (projMatrixBuffer this) (Uniform m))
          (depthBuffer this) (F32Array d))
          (indicesBuffer (sorter this)) (U32Array ix))
          (indexBuffer this) (U32Array ib))"
proof -
  have ne: "positionsBuffer this \<noteq> projMatrixBuffer this"
      "depthBuffer this \<noteq> projMatrixBuffer this"
      "indexBuffer this \<noteq> projMatrixBuffer this"
      "indexBuffer this \<noteq> depthBuffer this"
      "indexBuffer this \<noteq> indicesBuffer (sorter this)"
      "indicesBuffer (sorter this) \<noteq> depthBuffer this"
      "indicesBuffer (sorter this) \<noteq> projMatrixBuffer this"
      "positionsBuffer this \<noteq> depthBuffer this"
      "depthBuffer this \<noteq> indicesBuffer (sorter this)"
    using assms by (auto simp: well_formed_def)
  have bound: "computeDepthBindGroup this = (positionsBuffer this, depthBuffer this, projMatrixBuffer this)"
      "copyToIndexBufferBindGroup this = (indicesBuffer (sorter this), indexBuffer this)"
      "computeDepthPipeline this = (ceil_div (nElements this) 1024, nElements this)"
      "copyToIndexBufferPipeline this = (ceil_div (nElements this) 1024, nElements this)"
    using assms by (simp_all add: well_formed_def)
  show ?thesis
    using ne
    by (simp add: DepthSorter_sort_clamped_def Let_def bound computeDepth_pass_clamped_def
        copyToIndexBuffer_pass_clamped_def BitonicSorter_argsort_def data_writeBuffer)
qed

lemma sort_clamped_well_formed:
  assumes "well_formed this"
  shows "well_formed (fst (DepthSorter_sort_clamped order m this))"
proof -
  have held: "holds_f32 (gpu this) (depthBuffer this) (nPadded this)"
      "holds_u32 (gpu this) (indicesBuffer (sorter this)) (nPadded this)"
      "holds_u32 (gpu this) (indexBuffer this) (nElements this * 6)"
    using assms unfolding well_formed_def by blast+
  have ne: "positionsBuffer this \<noteq> projMatrixBuffer this"
      "positionsBuffer this \<noteq> depthBuffer this"
      "positionsBuffer this \<noteq> indicesBuffer (sorter this)"
      "positionsBuffer this \<noteq> indexBuffer this"
      "projMatrixBuffer this \<noteq> depthBuffer this"
      "projMatrixBuffer this \<noteq> indicesBuffer (sorter this)"
      "projMatrixBuffer this \<noteq> indexBuffer this"
      "depthBuffer this \<noteq> indicesBuffer (sorter this)"
      "depthBuffer this \<noteq> indexBuffer this"
      "indicesBuffer (sorter this) \<noteq> indexBuffer this"
    using assms by (auto simp: well_formed_def)
  have "well_formed (this\<lparr>gpu := gpu (fst (DepthSorter_sort_clamped order m this))\<rparr>)"
    using assms ne f32_length [OF held(1)] u32_length [OF held(2)] u32_length [OF held(3)]
    unfolding sort_clamped_buffers [OF assms] Let_def
    by (simp add: well_formed_def writeBuffer_def holds_vec3_def holds_f32_def holds_u32_def
        holds_uniform_def)
  then show ?thesis
    using sort_clamped_object [of order m this] by simp
qed

lemma sort_clamped_data:
  assumes "well_formed this"
  shows "f32_data (gpu (fst (DepthSorter_sort_clamped order m this))) (depthBuffer this) =
       dispatch_clamped order
         (computeDepth_main (ceil_div (nElements this) 1024) (nElements this)
            (vec3_data (gpu this) (positionsBuffer this)) m)
         (f32_data (gpu this) (depthBuffer this))"
    and "u32_data (gpu (fst (DepthSorter_sort_clamped order m this))) (indexBuffer this) =
       dispatch_clamped order
         (copyToIndexBuffer_main (ceil_div (nElements this) 1024) (nElements this)
            (argsort (f32_data (gpu (fst (DepthSorter_sort_clamped order m this))) (depthBuffer this))))
         (u32_data (gpu this) (indexBuffer this))"
    and "vec3_data (gpu (fst (DepthSorter_sort_clamped order m this))) (positionsBuffer this) =
       vec3_data (gpu this) (positionsBuffer this)"
proof -
  have ne: "depthBuffer this \<noteq> indicesBuffer (sorter this)" "depthBuffer this \<noteq> indexBuffer this"
      "positionsBuffer this \<noteq> projMatrixBuffer this" "positionsBuffer this \<noteq> depthBuffer this"
      "positionsBuffer this \<noteq> indicesBuffer (sorter this)" "positionsBuffer this \<noteq> indexBuffer this"
    using assms by (auto simp: well_formed_def)
  show d: "f32_data (gpu (fst (DepthSorter_sort_clamped order m this))) (depthBuffer this) =
       dispatch_clamped order
         (computeDepth_main (ceil_div (nElements this) 1024) (nElements this)
            (vec3_data (gpu this) (positionsBuffer this)) m)
         (f32_data (gpu this) (depthBuffer this))"
    unfolding sort_clamped_buffers [OF assms] Let_def using ne by (simp add: data_writeBuffer)
  show "u32_data (gpu (fst (DepthSorter_sort_clamped order m this))) (indexBuffer this) =
       dispatch_clamped order
         (copyToIndexBuffer_main (ceil_div (nElements this) 1024) (nElements this)
            (argsort (f32_data (gpu (fst (DepthSorter_sort_clamped order m this))) (depthBuffer this))))
         (u32_data (gpu this) (indexBuffer this))"
    unfolding d unfolding sort_clamped_buffers [OF assms] Let_def by (simp add: data_writeBuffer)
  show "vec3_data (gpu (fst (DepthSorter_sort_clamped order m this))) (positionsBuffer this) =
       vec3_data (gpu this) (positionsBuffer this)"
    unfolding sort_clamped_buffers [OF assms] Let_def using ne by (simp add: data_writeBuffer)
qed

lemma four_counts: "nextPowerOfTwo 4 = 4" "ceil_div 4 1024 = 1"
  by (simp_all add: nextPowerOfTwo_def Math_ceil_log2_def Math_pow2_def ceil_log2.simps ceil_div_def)

text \<open>
  Claim C8 on four gaussians of depths 5, 1, 3, 2 under the identity matrix, on a device
  that clamps the index of a store. In the first call the workgroups run in ascending
  order: the depth buffer is \<open>[5, 1, 3, 1000000]\<close>, the permutation \<open>[1, 2, 0, 3]\<close>. In
  the second call, with the same matrix and the same positions, they run in descending
  order: the depth buffer is \<open>[5, 1, 3, 2]\<close>, the permutation \<open>[1, 3, 2, 0]\<close>. The index
  buffer of the second call is not the one of the first.
\<close>

theorem sort_twice_differs:
  "u32_data (gpu (fst (DepthSorter_sort_clamped [0..<1024] identity_mat4x4
       (DepthSorter_new fresh_device four_gaussians))))
     (indexBuffer (DepthSorter_new fresh_device four_gaussians)) =
   [6, 7, 8, 9, 10, 11, 12, 13, 14, 15, 16, 17, 0, 1, 2, 3, 4, 5, 18, 19, 20, 21, 22, 23] \<and>
   u32_data (gpu (fst (DepthSorter_sort_clamped (rev [0..<1024]) identity_mat4x4
       (fst (DepthSorter_sort_clamped [0..<1024] identity_mat4x4
          (DepthSorter_new fresh_device four_gaussians))))))
     (indexBuffer (DepthSorter_new fresh_device four_gaussians)) =
   [6, 7, 8, 9, 10, 11, 18, 19, 20, 21, 22, 23, 12, 13, 14, 15, 16, 17, 0, 1, 2, 3, 4, 5]"
proof -
  let ?srt = "DepthSorter_new fresh_device four_gaussians"
  let ?one = "fst (DepthSorter_sort_clamped [0..<1024] identity_mat4x4 ?srt)"
  let ?two = "fst (DepthSorter_sort_clamped (rev [0..<1024]) identity_mat4x4 ?one)"
  have wf: "well_formed ?srt"
    by (rule DepthSorter_new_well_formed)
  have wf1: "well_formed ?one"
    using wf by (rule sort_clamped_well_formed)
  have obj: "?one = ?srt\<lparr>gpu := gpu ?one\<rparr>"
    by (rule sort_clamped_object)
  have fields: "indexBuffer ?one = indexBuffer ?srt" "depthBuffer ?one = depthBuffer ?srt"
      "positionsBuffer ?one = positionsBuffer ?srt" "nElements ?one = nElements ?srt"
    by (subst obj, simp)+
  have n: "nElements ?srt = 4" "vec3_data (gpu ?srt) (positionsBuffer ?srt) =
      [(0, 0, 5), (0, 0, 1), (0, 0, 3), (0, 0, 2)]"
    by (simp_all add: DepthSorter_new_data four_gaussians_def)
  have len0: "length (f32_data (gpu ?srt) (depthBuffer ?srt)) = 4"
    by (simp add: DepthSorter_new_data four_gaussians_def four_counts)
  have ib0: "u32_data (gpu ?srt) (indexBuffer ?srt) = replicate 24 0"
    by (simp add: DepthSorter_new_data four_gaussians_def)
  have d1: "f32_data (gpu ?one) (depthBuffer ?srt) = [5, 1, 3, sentinel]"
    unfolding sort_clamped_data(1) [OF wf] n four_counts by (rule clamped_depths(1) [OF len0])
  have a1: "argsort [5, 1, 3, sentinel] = [1, 2, 0, 3]"
    unfolding sentinel_def by code_simp
  have i1: "u32_data (gpu ?one) (indexBuffer ?srt) =
      [6, 7, 8, 9, 10, 11, 12, 13, 14, 15, 16, 17, 0, 1, 2, 3, 4, 5, 18, 19, 20, 21, 22, 23]"
    unfolding sort_clamped_data(2) [OF wf] d1 a1 n four_counts ib0
    by (rule clamped_copies(1))
  have pos1: "vec3_data (gpu ?one) (positionsBuffer ?srt) =
      [(0, 0, 5), (0, 0, 1), (0, 0, 3), (0, 0, 2)]"
    unfolding sort_clamped_data(3) [OF wf] by (rule n(2))
  have len1: "length (f32_data (gpu ?one) (depthBuffer ?srt)) = 4"
    unfolding d1 by simp
  have d2: "f32_data (gpu ?two) (depthBuffer ?srt) = [5, 1, 3, 2]"
    using sort_clamped_data(1) [OF wf1, of "rev [0..<1024]" identity_mat4x4]
    unfolding fields n pos1 four_counts
    by (simp only: clamped_depths(2) [OF len1])
  have a2: "argsort [5, 1, 3, 2] = [1, 3, 2, 0]"
    by code_simp
  have i2: "u32_data (gpu ?two) (indexBuffer ?srt) =
      [6, 7, 8, 9, 10, 11, 18, 19, 20, 21, 22, 23, 12, 13, 14, 15, 16, 17, 0, 1, 2, 3, 4, 5]"
    using sort_clamped_data(2) [OF wf1, of "rev [0..<1024]" identity_mat4x4]
    unfolding fields n four_counts d2 a2 i1
    by (simp only: clamped_copies(2))
  show ?thesis
    using i1 i2 by simp
qed

end
